theory Spec2Isabelle
  imports Complex_Main
begin

section \<open>Values of the program\<close>

text \<open>
  The program handles parsed JSON throughout: the raw leads returned by the Graph API
  (or read from the sample file) are Python objects built by \<^verbatim>\<open>json.load\<close>.
  A JSON object is kept as an association list in insertion order; a Python dict never
  holds a key twice, and \<open>map_of\<close> is \<^verbatim>\<open>dict.get\<close> on such a list.
  A float is carried as the rational it denotes. A string is a list of characters read
  as code points 0 to 255.
\<close>

datatype json =
    JNull
  | JBool bool
  | JInt int
  | JFloat rat
  | JStr string
  | JList "json list"
  | JObj "(string \<times> json) list"

datatype py_error =
    AttributeError
  | TypeError
  | KeyError
  | RuntimeError
  | HTTPError
  | JSONDecodeError
  | RequestException

text \<open>Python truthiness, as tested by \<^verbatim>\<open>if x\<close>, \<^verbatim>\<open>not x\<close> and \<^verbatim>\<open>x or y\<close>.\<close>

fun truthy :: "json \<Rightarrow> bool" where
  "truthy JNull = False"
| "truthy (JBool b) = b"
| "truthy (JInt i) = (i \<noteq> 0)"
| "truthy (JFloat r) = (r \<noteq> 0)"
| "truthy (JStr s) = (s \<noteq> [])"
| "truthy (JList xs) = (xs \<noteq> [])"
| "truthy (JObj kvs) = (kvs \<noteq> [])"

text \<open>\<^verbatim>\<open>a or b\<close> where evaluating \<open>b\<close> cannot fail.\<close>

definition py_or :: "json \<Rightarrow> json \<Rightarrow> json" where
  "py_or a b = (if truthy a then a else b)"

text \<open>
  What a \<^verbatim>\<open>for\<close> loop or \<^verbatim>\<open>list.extend\<close> iterates over: the elements of a
  list, the characters of a string, the keys of a dict; anything else is not iterable.
\<close>

fun py_iter :: "json \<Rightarrow> py_error + json list" where
  "py_iter (JList xs) = Inr xs"
| "py_iter (JStr s) = Inr (map (\<lambda>c. JStr [c]) s)"
| "py_iter (JObj kvs) = Inr (map (\<lambda>kv. JStr (fst kv)) kvs)"
| "py_iter _ = Inl TypeError"

section \<open>The seen-leads store (src/utils/db.py)\<close>

text \<open>
  The table \<^verbatim>\<open>seen_leads(lead_id TEXT PRIMARY KEY)\<close> is the list of its rows.
  \<^verbatim>\<open>LeadDB(path)\<close> creates the table only if it does not exist, so the rows of an
  existing database file survive; a path with no file gives the empty table.
  Failures of the file system and of SQLite itself are not part of the model.
\<close>

type_synonym lead_db = "string list"

definition LeadDB :: "lead_db option \<Rightarrow> lead_db" where
  "LeadDB existing = (case existing of None \<Rightarrow> [] | Some rows \<Rightarrow> rows)"

text \<open>\<^verbatim>\<open>SELECT 1 FROM seen_leads WHERE lead_id=?\<close>, then \<^verbatim>\<open>fetchone() is not None\<close>.\<close>

definition is_seen :: "lead_db \<Rightarrow> string \<Rightarrow> bool" where
  "is_seen db lead_id = (filter (\<lambda>r. r = lead_id) db \<noteq> [])"

text \<open>\<^verbatim>\<open>INSERT OR IGNORE\<close>: a row whose key is present is not inserted.\<close>

definition mark_seen :: "lead_db \<Rightarrow> string \<Rightarrow> lead_db" where
  "mark_seen db lead_id = (if lead_id \<in> set db then db else db @ [lead_id])"

text \<open>A sequence of calls on one store, with the value each call returns.\<close>

datatype db_call = IsSeen string | MarkSeen string

fun db_run :: "lead_db \<Rightarrow> db_call list \<Rightarrow> bool option list \<times> lead_db" where
  "db_run db [] = ([], db)"
| "db_run db (IsSeen i # cs) =
     (let (rs, db') = db_run db cs in (Some (is_seen db i) # rs, db'))"
| "db_run db (MarkSeen i # cs) =
     (let (rs, db') = db_run (mark_seen db i) cs in (None # rs, db'))"

section \<open>Strings\<close>

text \<open>
  \<^verbatim>\<open>str.lower\<close> and \<^verbatim>\<open>str.strip\<close> on code points 0 to 255: the upper-case
  letters are A to Z and the Latin-1 letters 192 to 222 except the multiplication sign
  215, each 32 below its lower-case letter; the white space is 9 to 13, 28 to 32, 133
  and 160.
\<close>

definition lower_char :: "char \<Rightarrow> char" where
  "lower_char c =
     (let n = (of_char c :: nat)
      in if (65 \<le> n \<and> n \<le> 90) \<or> (192 \<le> n \<and> n \<le> 222 \<and> n \<noteq> 215)
         then char_of (n + 32) else c)"

definition py_isspace :: "char \<Rightarrow> bool" where
  "py_isspace c =
     (let n = (of_char c :: nat)
      in (9 \<le> n \<and> n \<le> 13) \<or> (28 \<le> n \<and> n \<le> 32) \<or> n = 133 \<or> n = 160)"

definition py_lower :: "string \<Rightarrow> string" where
  "py_lower s = map lower_char s"

definition py_strip :: "string \<Rightarrow> string" where
  "py_strip s = rev (dropWhile py_isspace (rev (dropWhile py_isspace s)))"

fun starts_with :: "string \<Rightarrow> string \<Rightarrow> bool" where
  "starts_with s [] = True"
| "starts_with [] (p # ps) = False"
| "starts_with (c # cs) (p # ps) = (c = p \<and> starts_with cs ps)"

text \<open>\<^verbatim>\<open>sub in s\<close> on strings: \<open>sub\<close> occurs in \<open>s\<close> as a contiguous piece.\<close>

fun py_in :: "string \<Rightarrow> string \<Rightarrow> bool" where
  "py_in sub [] = (sub = [])"
| "py_in sub (c # cs) = (starts_with (c # cs) sub \<or> py_in sub cs)"

text \<open>
  \<^verbatim>\<open>str(x)\<close>: a string is returned as it is; for any other value the builtin gives
  its printed form, which is not code of this program and is taken as the parameter
  \<open>repr\<close>.
\<close>

definition py_str :: "(json \<Rightarrow> string) \<Rightarrow> json \<Rightarrow> string" where
  "py_str repr v = (case v of JStr s \<Rightarrow> s | _ \<Rightarrow> repr v)"

section \<open>The normalizer (src/fetcher.py, normalize\_lead)\<close>

text \<open>The dict that \<^verbatim>\<open>normalize_lead\<close> returns, one field for each of its keys.\<close>

record lead =
  l_lead_id :: "string option"
  l_created_time :: json
  l_name :: json
  l_email :: json
  l_phone :: json
  l_raw :: json

text \<open>\<^verbatim>\<open>d.get(k)\<close> on a value known to be a dict.\<close>

definition dict_get :: "(string \<times> json) list \<Rightarrow> string \<Rightarrow> json" where
  "dict_get kvs k = (case map_of kvs k of None \<Rightarrow> JNull | Some v \<Rightarrow> v)"

text \<open>
  \<^verbatim>\<open>vals[0] if vals else None\<close>. A dict parsed from JSON has string keys only, so
  indexing a non-empty one by 0 is a KeyError; a number or \<^verbatim>\<open>True\<close> cannot be
  indexed.
\<close>

fun first_value :: "json \<Rightarrow> py_error + json" where
  "first_value (JList []) = Inr JNull"
| "first_value (JList (x # xs)) = Inr x"
| "first_value (JStr []) = Inr JNull"
| "first_value (JStr (c # cs)) = Inr (JStr [c])"
| "first_value (JObj []) = Inr JNull"
| "first_value (JObj (kv # kvs)) = Inl KeyError"
| "first_value v = (if truthy v then Inl TypeError else Inr JNull)"

text \<open>\<^verbatim>\<open>isinstance(v, str)\<close>.\<close>

fun is_str :: "json \<Rightarrow> bool" where
  "is_str (JStr s) = True"
| "is_str _ = False"

text \<open>\<^verbatim>\<open>val.strip()\<close>: only a string has the method.\<close>

fun strip_of :: "json \<Rightarrow> py_error + string" where
  "strip_of (JStr s) = Inr (py_strip s)"
| "strip_of _ = Inl AttributeError"

text \<open>\<^verbatim>\<open>key = (field.get("name") or "").lower()\<close>: only a string has the method.\<close>

definition field_key :: "(string \<times> json) list \<Rightarrow> py_error + string" where
  "field_key field =
     (case py_or (dict_get field ''name'') (JStr []) of
        JStr k \<Rightarrow> Inr (py_lower k)
      | _ \<Rightarrow> Inl AttributeError)"

text \<open>
  \<^verbatim>\<open>vals = field.get("values") or []\<close>, a bare string wrapped into a list, then
  \<^verbatim>\<open>val = vals[0] if vals else None\<close>.
\<close>

definition field_val :: "(string \<times> json) list \<Rightarrow> py_error + json" where
  "field_val field =
     (let vals = py_or (dict_get field ''values'') (JList []);
          vals = (case vals of JStr s \<Rightarrow> JList [vals] | _ \<Rightarrow> vals)
      in first_value vals)"

text \<open>
  \<^verbatim>\<open>x = x or f(val.strip())\<close>: the right operand is evaluated only when \<open>x\<close> is
  falsy, so a value that is not a string fails only then.
\<close>

definition or_stripped :: "json \<Rightarrow> json \<Rightarrow> (string \<Rightarrow> string) \<Rightarrow> py_error + json" where
  "or_stripped x val f =
     (if truthy x then Inr x
      else case strip_of val of
             Inl e \<Rightarrow> Inl e
           | Inr s \<Rightarrow> Inr (JStr (f s)))"

text \<open>
  One pass of the loop body over a \<open>field\<close>, on the variables \<open>(name, email, phone)\<close>.
\<close>

fun normalize_field :: "json \<Rightarrow> json \<times> json \<times> json \<Rightarrow> py_error + json \<times> json \<times> json" where
  "normalize_field (JObj field) (name, email, phone) =
     (case field_key field of
        Inl e \<Rightarrow> Inl e
      | Inr key \<Rightarrow>
          (case field_val field of
             Inl e \<Rightarrow> Inl e
           | Inr val \<Rightarrow>
               if \<not> truthy val then Inr (name, email, phone)
               else if py_in ''email'' key then
                 (case or_stripped email val py_lower of
                    Inl e \<Rightarrow> Inl e
                  | Inr email' \<Rightarrow> Inr (name, email', phone))
               else if py_in ''name'' key \<or> py_in ''full_name'' key
                       \<or> py_in ''first_name'' key then
                 (case or_stripped name val (\<lambda>s. s) of
                    Inl e \<Rightarrow> Inl e
                  | Inr name' \<Rightarrow> Inr (name', email, phone))
               else if py_in ''phone'' key \<or> py_in ''mobile'' key then
                 (case or_stripped phone val (\<lambda>s. s) of
                    Inl e \<Rightarrow> Inl e
                  | Inr phone' \<Rightarrow> Inr (name, email, phone'))
               else Inr (name, email, phone)))"
| "normalize_field _ st = Inl AttributeError"

fun normalize_fields :: "json list \<Rightarrow> json \<times> json \<times> json \<Rightarrow> py_error + json \<times> json \<times> json" where
  "normalize_fields [] st = Inr st"
| "normalize_fields (field # rest) st =
     (case normalize_field field st of
        Inl e \<Rightarrow> Inl e
      | Inr st' \<Rightarrow> normalize_fields rest st')"

text \<open>\<^verbatim>\<open>raw.get("field_data", []) or []\<close>.\<close>

definition field_data_of :: "(string \<times> json) list \<Rightarrow> json" where
  "field_data_of raw =
     py_or (case map_of raw ''field_data'' of None \<Rightarrow> JList [] | Some v \<Rightarrow> v) (JList [])"

fun normalize_lead :: "(json \<Rightarrow> string) \<Rightarrow> json \<Rightarrow> py_error + lead" where
  "normalize_lead repr (JObj raw) =
     (let lead_id = dict_get raw ''id'';
          created_time = dict_get raw ''created_time''
      in case py_iter (field_data_of raw) of
           Inl e \<Rightarrow> Inl e
         | Inr field_data \<Rightarrow>
             (case normalize_fields field_data (JNull, JNull, JNull) of
                Inl e \<Rightarrow> Inl e
              | Inr (name, email, phone) \<Rightarrow>
                  Inr \<lparr> l_lead_id = (if lead_id \<noteq> JNull then Some (py_str repr lead_id)
                                     else None),
                        l_created_time = created_time,
                        l_name = py_or (py_or name (dict_get raw ''name''))
                                   (dict_get raw ''full_name''),
                        l_email = py_or (py_or email (dict_get raw ''email''))
                                    (dict_get raw ''email_address''),
                        l_phone = py_or (py_or phone (dict_get raw ''phone''))
                                    (dict_get raw ''phone_number''),
                        l_raw = JObj raw \<rparr>))"
| "normalize_lead repr _ = Inl AttributeError"

section \<open>The pipeline (src/fetcher.py, the loop of main)\<close>

text \<open>
  The \<^verbatim>\<open>for raw in raw_leads\<close> loop of \<^verbatim>\<open>main\<close>, on the store \<open>db\<close> and the
  list \<open>new_leads\<close>. An exception of \<^verbatim>\<open>normalize_lead\<close> is not caught: the run
  ends there, and the store keeps what was marked before.
\<close>

fun process_leads ::
  "(json \<Rightarrow> string) \<Rightarrow> bool \<Rightarrow> json list \<Rightarrow> lead_db \<Rightarrow> lead list
     \<Rightarrow> (py_error + lead list) \<times> lead_db" where
  "process_leads repr dry_run [] db new_leads = (Inr new_leads, db)"
| "process_leads repr dry_run (raw # rest) db new_leads =
     (case normalize_lead repr raw of
        Inl e \<Rightarrow> (Inl e, db)
      | Inr normalized \<Rightarrow>
          (case l_lead_id normalized of
             None \<Rightarrow> process_leads repr dry_run rest db new_leads
           | Some lid \<Rightarrow>
               if lid = [] then process_leads repr dry_run rest db new_leads
               else if \<not> truthy (l_email normalized) \<and> \<not> truthy (l_phone normalized)
                 then process_leads repr dry_run rest db new_leads
               else if is_seen db lid then process_leads repr dry_run rest db new_leads
               else process_leads repr dry_run rest
                      (if \<not> dry_run then mark_seen db lid else db)
                      (new_leads @
                        [\<lparr> l_lead_id = l_lead_id normalized,
                            l_created_time = l_created_time normalized,
                            l_name = l_name normalized,
                            l_email = l_email normalized,
                            l_phone = l_phone normalized,
                            l_raw = l_raw normalized \<rparr>])))"

section \<open>The page fetcher (src/fetcher.py, fetch\_leads)\<close>

text \<open>
  The network is the sequence of things that successive \<^verbatim>\<open>SESSION.get\<close> calls do, in
  the order of the calls: each call either returns a response or raises (a connection
  error, the retry adapter giving up, an unusable URL). A response has a status code and
  a body, which is a JSON value or not valid JSON. The requests made are logged as the
  URL and the \<^verbatim>\<open>params\<close> argument of each call. When the sequence ends while a call is
  outstanding the run is \<open>Pending\<close>: the model says nothing about it.
\<close>

datatype response = Response (status_code: nat) (body: "json option")

datatype http_event = Reply response | Fail py_error

type_synonym request = "json \<times> (string \<times> json) list option"

datatype 'a outcome = Returned 'a | Raised py_error | Pending

text \<open>The module-level settings read from the environment when the program starts.\<close>

record config =
  ACCESS_TOKEN :: "string option"
  LEAD_FORM_ID :: "string option"
  GRAPH_API_VERSION :: string
  GRAPH_API_BASE :: string
  PAGE_SIZE :: int

definition build_url :: "config \<Rightarrow> string \<Rightarrow> string" where
  "build_url cfg form_id =
     GRAPH_API_BASE cfg @ ''/'' @ GRAPH_API_VERSION cfg @ ''/'' @ form_id @ ''/leads''"

text \<open>
  The loop body after a response is in hand: \<^verbatim>\<open>raise_for_status\<close> (a status from 400 to
  599 raises), \<^verbatim>\<open>resp.json()\<close>, the page items (appended only when truthy, by
  \<^verbatim>\<open>list.extend\<close>), and the next URL. It gives the items to append and the next URL.
\<close>

definition page_of :: "response \<Rightarrow> py_error + json list \<times> json" where
  "page_of resp =
     (if 400 \<le> status_code resp \<and> status_code resp < 600 then Inl HTTPError
      else case body resp of
             None \<Rightarrow> Inl JSONDecodeError
           | Some data \<Rightarrow>
               (let page_items = (case data of JObj d \<Rightarrow> dict_get d ''data'' | _ \<Rightarrow> data)
                in case (if truthy page_items then py_iter page_items else Inr []) of
                     Inl e \<Rightarrow> Inl e
                   | Inr items \<Rightarrow>
                       (case (case data of
                                JObj d \<Rightarrow> (case map_of d ''paging'' of
                                             None \<Rightarrow> JObj [] | Some v \<Rightarrow> v)
                              | _ \<Rightarrow> JObj []) of
                          JObj paging \<Rightarrow> Inr (items, dict_get paging ''next'')
                        | _ \<Rightarrow> Inl AttributeError)))"

text \<open>
  The \<^verbatim>\<open>while url\<close> loop on \<open>url\<close>, \<open>params\<close> and \<open>leads\<close>. A status of 500 or more
  makes the loop issue the same request once more and go on with that response.
\<close>

fun fetch_pages ::
  "http_event list \<Rightarrow> json \<Rightarrow> (string \<times> json) list option \<Rightarrow> json list \<Rightarrow> request list
     \<Rightarrow> json list outcome \<times> request list" where
  "fetch_pages [] url params leads sent =
     (if \<not> truthy url then (Returned leads, sent) else (Pending, sent @ [(url, params)]))"
| "fetch_pages (ev # script) url params leads sent =
     (if \<not> truthy url then (Returned leads, sent)
      else case ev of
             Fail e \<Rightarrow> (Raised e, sent @ [(url, params)])
           | Reply resp \<Rightarrow>
               if status_code resp \<ge> 500 then
                 (case script of
                    [] \<Rightarrow> (Pending, sent @ [(url, params), (url, params)])
                  | Fail e # rest \<Rightarrow> (Raised e, sent @ [(url, params), (url, params)])
                  | Reply resp2 # rest \<Rightarrow>
                      (case page_of resp2 of
                         Inl e \<Rightarrow> (Raised e, sent @ [(url, params), (url, params)])
                       | Inr (items, next_url) \<Rightarrow>
                           fetch_pages rest next_url None (leads @ items)
                             (sent @ [(url, params), (url, params)])))
               else
                 (case page_of resp of
                    Inl e \<Rightarrow> (Raised e, sent @ [(url, params)])
                  | Inr (items, next_url) \<Rightarrow>
                      fetch_pages script next_url None (leads @ items)
                        (sent @ [(url, params)])))"

text \<open>The query parameters of the first request.\<close>

definition first_params ::
  "string \<Rightarrow> string option \<Rightarrow> int \<Rightarrow> (string \<times> json) list" where
  "first_params access_token since page_size =
     [(''access_token'', JStr access_token),
      (''fields'', JStr ''field_data,created_time,id''),
      (''limit'', JInt page_size)]
     @ (case since of
          None \<Rightarrow> []
        | Some s \<Rightarrow> if s = [] then [] else [(''since'', JStr s)])"

definition fetch_leads ::
  "config \<Rightarrow> http_event list \<Rightarrow> string option \<Rightarrow> string \<Rightarrow> string option \<Rightarrow> int
     \<Rightarrow> json list outcome \<times> request list" where
  "fetch_leads cfg script access_token form_id since page_size =
     (case access_token of
        None \<Rightarrow> (Raised RuntimeError, [])
      | Some token \<Rightarrow>
          if token = [] then (Raised RuntimeError, [])
          else fetch_pages script (JStr (build_url cfg form_id))
                 (Some (first_params token since page_size)) [] [])"

section \<open>The program (src/fetcher.py, main)\<close>

text \<open>
  The sample file is absent, or present with content that is not JSON, or present with a
  JSON value. \<^verbatim>\<open>load_sample\<close> returns an empty list for an absent file.
\<close>

definition load_sample :: "json option option \<Rightarrow> py_error + json" where
  "load_sample sample =
     (case sample of
        None \<Rightarrow> Inr (JList [])
      | Some None \<Rightarrow> Inl JSONDecodeError
      | Some (Some v) \<Rightarrow> Inr v)"

text \<open>\<^verbatim>\<open>len(x)\<close>: a list, a string and a dict have a length.\<close>

fun py_len :: "json \<Rightarrow> py_error + nat" where
  "py_len (JList xs) = Inr (length xs)"
| "py_len (JStr s) = Inr (length s)"
| "py_len (JObj d) = Inr (length d)"
| "py_len _ = Inl TypeError"

text \<open>
  \<^verbatim>\<open>write_output\<close> writes nothing for an empty list; otherwise it writes
  \<^verbatim>\<open>new_leads.json\<close> or \<^verbatim>\<open>new_leads.csv\<close>. The file is kept as its name and the
  records it is written from.
\<close>

definition write_output :: "lead list \<Rightarrow> string \<Rightarrow> (string \<times> lead list) option" where
  "write_output new_leads output =
     (if new_leads = [] then None
      else if output = ''json'' then Some (''new_leads.json'', new_leads)
      else Some (''new_leads.csv'', new_leads))"

text \<open>The command line, as \<^verbatim>\<open>parse_args\<close> returns it.\<close>

record args =
  args_since :: "string option"
  args_output :: string
  args_dry_run :: bool
  args_max_pages :: "int option"
  args_mock_sample :: bool

text \<open>
  How the process ends: with an exit code, with an exception that nothing catches, or
  not determined by the model (the network sequence ended first).
\<close>

datatype exit = ExitCode nat | Uncaught py_error | Undetermined

text \<open>
  What a run leaves behind: how it ended, the output file if one was written, the store
  file (as it was when the store was never opened), the requests made, and the two
  counts of the last log line.
\<close>

record run =
  run_exit :: exit
  run_written :: "(string \<times> lead list) option"
  run_db :: "lead_db option"
  run_requests :: "request list"
  run_counts :: "(nat \<times> nat) option"

text \<open>
  The raw leads of a run: the sample file (its length is taken for the log line before
  the loop iterates over it), or the pages of the API.
\<close>

definition raw_leads_of ::
  "config \<Rightarrow> args \<Rightarrow> json option option \<Rightarrow> http_event list \<Rightarrow> string
     \<Rightarrow> json list outcome \<times> request list" where
  "raw_leads_of cfg a sample script form_id =
     (if args_mock_sample a then
        (case load_sample sample of
           Inl e \<Rightarrow> (Raised e, [])
         | Inr raw_leads \<Rightarrow>
             (case py_len raw_leads of
                Inl e \<Rightarrow> (Raised e, [])
              | Inr n \<Rightarrow>
                  (case py_iter raw_leads of
                     Inl e \<Rightarrow> (Raised e, [])
                   | Inr raws \<Rightarrow> (Returned raws, []))))
      else fetch_leads cfg script (ACCESS_TOKEN cfg) form_id (args_since a) (PAGE_SIZE cfg))"

text \<open>
  \<^verbatim>\<open>main\<close>. The store \<open>existing\<close> is the content of the file at \<^verbatim>\<open>args.db\<close>, if
  there is one. Without \<^verbatim>\<open>--mock-sample\<close> a missing token or form id ends the
  process with code 1 before the store is opened.
\<close>

definition main ::
  "(json \<Rightarrow> string) \<Rightarrow> config \<Rightarrow> args \<Rightarrow> json option option \<Rightarrow> lead_db option
     \<Rightarrow> http_event list \<Rightarrow> run" where
  "main repr cfg a sample existing script =
     (if \<not> args_mock_sample a \<and>
         (ACCESS_TOKEN cfg = None \<or> ACCESS_TOKEN cfg = Some [] \<or>
          LEAD_FORM_ID cfg = None \<or> LEAD_FORM_ID cfg = Some [])
      then \<lparr> run_exit = ExitCode 1, run_written = None, run_db = existing,
             run_requests = [], run_counts = None \<rparr>
      else
        (let db = LeadDB existing
         in case raw_leads_of cfg a sample script
                   (case LEAD_FORM_ID cfg of None \<Rightarrow> [] | Some form_id \<Rightarrow> form_id) of
              (Raised e, requests) \<Rightarrow>
                \<lparr> run_exit = Uncaught e, run_written = None, run_db = Some db,
                  run_requests = requests, run_counts = None \<rparr>
            | (Pending, requests) \<Rightarrow>
                \<lparr> run_exit = Undetermined, run_written = None, run_db = Some db,
                  run_requests = requests, run_counts = None \<rparr>
            | (Returned raw_leads, requests) \<Rightarrow>
                (case process_leads repr (args_dry_run a) raw_leads db [] of
                   (Inl e, db') \<Rightarrow>
                     \<lparr> run_exit = Uncaught e, run_written = None, run_db = Some db',
                       run_requests = requests, run_counts = None \<rparr>
                 | (Inr new_leads, db') \<Rightarrow>
                     \<lparr> run_exit = ExitCode 0,
                       run_written = write_output new_leads (args_output a),
                       run_db = Some db', run_requests = requests,
                       run_counts = Some (length raw_leads, length new_leads) \<rparr>)))"

section \<open>A chain of pages as the specification words it\<close>

text \<open>
  Section 6 of the specification gives the shape of a page:
  \<^verbatim>\<open>{"data": [RawRecord...], "paging": {"next": "<url or absent>"}}\<close>, with a status that
  is no error. Its record list is the \<^verbatim>\<open>data\<close> list, nothing when that is empty or
  missing; its cursor is \<^verbatim>\<open>paging.next\<close>, absent when there is none. A chain is a
  sequence of such pages in which every page but the last has a cursor.
\<close>

definition spec_page_records :: "response \<Rightarrow> json list" where
  "spec_page_records resp =
     (case body resp of
        Some (JObj d) \<Rightarrow> (case dict_get d ''data'' of JList records \<Rightarrow> records | _ \<Rightarrow> [])
      | _ \<Rightarrow> [])"

definition spec_page_cursor :: "response \<Rightarrow> json" where
  "spec_page_cursor resp =
     (case body resp of
        Some (JObj d) \<Rightarrow> (case dict_get d ''paging'' of
                           JObj paging \<Rightarrow> dict_get paging ''next''
                         | _ \<Rightarrow> JNull)
      | _ \<Rightarrow> JNull)"

definition spec_page :: "response \<Rightarrow> bool" where
  "spec_page resp =
     (status_code resp < 400 \<and>
      (case body resp of
         Some (JObj d) \<Rightarrow>
           (case dict_get d ''data'' of JList records \<Rightarrow> True | v \<Rightarrow> \<not> truthy v) \<and>
           (case map_of d ''paging'' of None \<Rightarrow> True | Some (JObj paging) \<Rightarrow> True
            | Some v \<Rightarrow> False)
       | _ \<Rightarrow> False))"

fun spec_chain :: "response list \<Rightarrow> bool" where
  "spec_chain [] = False"
| "spec_chain [last_page] = (spec_page last_page \<and> \<not> truthy (spec_page_cursor last_page))"
| "spec_chain (page # rest) =
     (spec_page page \<and> truthy (spec_page_cursor page) \<and> spec_chain rest)"

section \<open>The normalizer as the specification words it\<close>

text \<open>
  Section 4.3 of the specification, steps 2 and 3, written down on its own so that the
  loop of \<^verbatim>\<open>normalize_lead\<close> can be compared with it. An entry's matching key is its
  lower-cased name; its value is the first of its values, a bare string counting as a
  one-element list, and an empty or missing value makes the entry count for nothing. The
  key is classified by substring containment, e-mail first, then name, then phone. The
  e-mail value is trimmed and lower-cased, the others trimmed. For each target the first
  entry of the list that gives a non-empty value decides.
\<close>

datatype target = Email | Name | Phone

definition spec_classify :: "string \<Rightarrow> target option" where
  "spec_classify key =
     (if py_in ''email'' key then Some Email
      else if py_in ''name'' key then Some Name
      else if py_in ''phone'' key \<or> py_in ''mobile'' key then Some Phone
      else None)"

fun spec_entry_key :: "json \<Rightarrow> string" where
  "spec_entry_key (JObj field) =
     (case dict_get field ''name'' of JStr k \<Rightarrow> py_lower k | _ \<Rightarrow> [])"
| "spec_entry_key _ = []"

fun spec_entry_value :: "json \<Rightarrow> string option" where
  "spec_entry_value (JObj field) =
     (case dict_get field ''values'' of
        JStr s \<Rightarrow> if s = [] then None else Some s
      | JList (JStr s # rest) \<Rightarrow> if s = [] then None else Some s
      | _ \<Rightarrow> None)"
| "spec_entry_value _ = None"

definition spec_assign :: "target \<Rightarrow> json \<Rightarrow> string option" where
  "spec_assign tgt entry =
     (if spec_classify (spec_entry_key entry) = Some tgt
      then (case spec_entry_value entry of
              None \<Rightarrow> None
            | Some s \<Rightarrow> Some (if tgt = Email then py_lower (py_strip s) else py_strip s))
      else None)"

text \<open>The loop variable that belongs to a target, in the triple \<open>(name, email, phone)\<close>.\<close>

fun slot :: "target \<Rightarrow> json \<times> json \<times> json \<Rightarrow> json" where
  "slot Name (name, email, phone) = name"
| "slot Email (name, email, phone) = email"
| "slot Phone (name, email, phone) = phone"

fun spec_first :: "target \<Rightarrow> json list \<Rightarrow> string option" where
  "spec_first tgt [] = None"
| "spec_first tgt (entry # rest) =
     (case spec_assign tgt entry of
        None \<Rightarrow> spec_first tgt rest
      | Some v \<Rightarrow> if v = [] then spec_first tgt rest else Some v)"

text \<open>
  A shape of raw records, read off the docstring of \<^verbatim>\<open>normalize_lead\<close> (field data is
  a list of name and values): a dict whose \<^verbatim>\<open>field_data\<close> is missing, falsy or a list
  of dicts, each with a name that is missing, falsy or a string and with values that are
  missing, falsy, a string, or a list whose first element is falsy or a string. The shape
  looks at types only, so it is on the safe side: a number as first value is outside it
  also where the loop would never call \<^verbatim>\<open>strip\<close> on it.
\<close>

fun well_typed_field :: "json \<Rightarrow> bool" where
  "well_typed_field (JObj field) =
     ((case py_or (dict_get field ''name'') (JStr []) of JStr k \<Rightarrow> True | _ \<Rightarrow> False) \<and>
      (case py_or (dict_get field ''values'') (JList []) of
         JStr s \<Rightarrow> True
       | JList [] \<Rightarrow> True
       | JList (JStr s # rest) \<Rightarrow> True
       | JList (x # rest) \<Rightarrow> \<not> truthy x
       | _ \<Rightarrow> False))"
| "well_typed_field _ = False"

fun well_typed_raw :: "json \<Rightarrow> bool" where
  "well_typed_raw (JObj raw) =
     (case field_data_of raw of
        JList field_data \<Rightarrow> list_all well_typed_field field_data
      | _ \<Rightarrow> False)"
| "well_typed_raw _ = False"

section \<open>Sample values\<close>

text \<open>Raw leads in the fallback shape: one with an e-mail, one with the same identifier
  and a phone, one with no contact channel, one with no identifier.\<close>

abbreviation raw_mail :: json where
  "raw_mail \<equiv> JObj [(''id'', JStr ''1''), (''email'', JStr ''a@x.com'')]"

abbreviation raw_phone :: json where
  "raw_phone \<equiv> JObj [(''id'', JStr ''1''), (''phone'', JStr ''555'')]"

abbreviation raw_nocontact :: json where
  "raw_nocontact \<equiv> JObj [(''id'', JStr ''2'')]"

abbreviation raw_noid :: json where
  "raw_noid \<equiv> JObj [(''email'', JStr ''b@y.com'')]"

abbreviation lead_mail :: lead where
  "lead_mail \<equiv> \<lparr> l_lead_id = Some ''1'', l_created_time = JNull, l_name = JNull,
       l_email = JStr ''a@x.com'', l_phone = JNull, l_raw = raw_mail \<rparr>"

abbreviation lead_phone :: lead where
  "lead_phone \<equiv> \<lparr> l_lead_id = Some ''1'', l_created_time = JNull, l_name = JNull,
       l_email = JNull, l_phone = JStr ''555'', l_raw = raw_phone \<rparr>"

text \<open>Raw leads with field data, and one in the fallback shape with padded values.\<close>

abbreviation entry_email_address :: json where
  "entry_email_address \<equiv>
     JObj [(''name'', JStr ''Email Address''), (''values'', JList [JStr ''A@X.com ''])]"

abbreviation entry_email2 :: json where
  "entry_email2 \<equiv> JObj [(''name'', JStr ''email2''), (''values'', JList [JStr ''b@y.com''])]"

abbreviation raw_two_emails :: json where
  "raw_two_emails \<equiv> JObj [(''field_data'', JList [entry_email_address, entry_email2])]"

abbreviation raw_number_value :: json where
  "raw_number_value \<equiv>
     JObj [(''id'', JStr ''1''),
           (''field_data'', JList [JObj [(''name'', JStr ''email''), (''values'', JList [JInt 5])]])]"

text \<open>
  An entry that no target matches, an e-mail entry with no value, a raw lead with an
  identifier and these two entries, and a raw lead whose phone entry carries a number
  after an entry that gives no phone.
\<close>

abbreviation entry_city :: json where
  "entry_city \<equiv> JObj [(''name'', JStr ''City''), (''values'', JList [JStr ''Paris''])]"

abbreviation entry_email_empty :: json where
  "entry_email_empty \<equiv> JObj [(''name'', JStr ''email''), (''values'', JList [])]"

abbreviation raw_id_only :: json where
  "raw_id_only \<equiv>
     JObj [(''id'', JStr ''1''), (''field_data'', JList [entry_city, entry_email_empty])]"

abbreviation raw_number_later :: json where
  "raw_number_later \<equiv>
     JObj [(''id'', JStr ''1''),
           (''field_data'',
              JList [entry_city,
                     JObj [(''name'', JStr ''Work Phone''), (''values'', JList [JInt 5])],
                     entry_email2])]"

abbreviation raw_fallback :: json where
  "raw_fallback \<equiv>
     JObj [(''id'', JStr ''9''), (''email_address'', JStr '' C@Z.com ''),
           (''phone_number'', JStr ''555 ''), (''full_name'', JStr ''Ann'')]"

text \<open>
  Three pages chained by cursors, the second with no \<^verbatim>\<open>data\<close> key and the third with
  no \<^verbatim>\<open>paging\<close> key, the default settings with a token and a form id, and a command
  line with \<^verbatim>\<open>--mock-sample\<close>.
\<close>

abbreviation page_first :: response where
  "page_first \<equiv>
     Response 200 (Some (JObj [(''data'', JList [raw_mail]),
                               (''paging'', JObj [(''next'', JStr ''https://next/2'')])]))"

abbreviation page_second :: response where
  "page_second \<equiv>
     Response 200 (Some (JObj [(''paging'', JObj [(''next'', JStr ''https://next/3'')])]))"

abbreviation page_third :: response where
  "page_third \<equiv> Response 200 (Some (JObj [(''data'', JList [raw_nocontact, raw_noid])]))"

abbreviation sample_config :: config where
  "sample_config \<equiv>
     \<lparr> ACCESS_TOKEN = Some ''token'', LEAD_FORM_ID = Some ''42'',
       GRAPH_API_VERSION = ''v16.0'', GRAPH_API_BASE = ''https://graph.facebook.com'',
       PAGE_SIZE = 100 \<rparr>"

abbreviation mock_args :: args where
  "mock_args \<equiv>
     \<lparr> args_since = None, args_output = ''json'', args_dry_run = False,
       args_max_pages = None, args_mock_sample = True \<rparr>"

section \<open>Properties of the store\<close>

lemma is_seen_iff: "is_seen db i \<longleftrightarrow> i \<in> set db"
  by (auto simp: is_seen_def filter_empty_conv)

lemma set_mark_seen: "set (mark_seen db i) = insert i (set db)"
  by (auto simp: mark_seen_def)

lemma distinct_mark_seen: "distinct db \<Longrightarrow> distinct (mark_seen db i)"
  by (simp add: mark_seen_def)

lemma db_run_answer:
  "k < length cs \<Longrightarrow> cs ! k = IsSeen i \<Longrightarrow>
     fst (db_run db cs) ! k = Some (i \<in> set db \<or> MarkSeen i \<in> set (take k cs))"
proof (induction cs arbitrary: db k)
  case Nil
  then show ?case by simp
next
  case (Cons c cs)
  show ?case
  proof (cases k)
    case 0
    with Cons.prems show ?thesis
      by (simp add: split_beta is_seen_iff)
  next
    case (Suc j)
    with Cons.prems have j: "j < length cs" "cs ! j = IsSeen i" by simp_all
    show ?thesis
    proof (cases c)
      case (IsSeen x)
      with Suc Cons.IH [OF j, of db] show ?thesis
        by (simp add: split_beta)
    next
      case (MarkSeen x)
      with Suc Cons.IH [OF j, of "mark_seen db x"] show ?thesis
        by (auto simp add: split_beta set_mark_seen)
    qed
  qed
qed

lemma db_run_store: "set (snd (db_run db cs)) = set db \<union> {i. MarkSeen i \<in> set cs}"
proof (induction cs arbitrary: db)
  case Nil
  show ?case by simp
next
  case (Cons c cs)
  show ?case using Cons.IH
    by (cases c) (auto simp add: split_beta set_mark_seen)
qed

text \<open>
  Claim C3. On a store constructed over no existing file, in any sequence of
  \<open>is_seen\<close> and \<open>mark_seen\<close> calls, the \<open>k\<close>-th call \<open>is_seen i\<close> answers
  true exactly when \<open>mark_seen i\<close> occurs among the calls before it (so an unknown
  identifier answers false; the model has no failing branch); \<open>mark_seen\<close> of an
  identifier that is already present returns the store as it was; and after the whole
  sequence \<open>is_seen j\<close> holds exactly for the identifiers that were marked.
\<close>

theorem seen_store_contract:
  "(k < length cs \<and> cs ! k = IsSeen i \<longrightarrow>
      fst (db_run (LeadDB None) cs) ! k = Some (MarkSeen i \<in> set (take k cs)))
   \<and> (is_seen db j \<longrightarrow> mark_seen db j = db)
   \<and> (is_seen (snd (db_run (LeadDB None) cs)) j \<longleftrightarrow> MarkSeen j \<in> set cs)"
  using db_run_answer [of k cs i "[]"] db_run_store [of "[]" cs]
  by (auto simp add: LeadDB_def is_seen_iff mark_seen_def)

theorem seen_store_contract_witness:
  "fst (db_run (LeadDB None)
      [IsSeen ''a'', MarkSeen ''a'', MarkSeen ''a'', IsSeen ''a'', IsSeen ''b'']) ! 3 = Some True
   \<and> fst (db_run (LeadDB None)
      [IsSeen ''a'', MarkSeen ''a'', MarkSeen ''a'', IsSeen ''a'', IsSeen ''b'']) ! 0 = Some False
   \<and> mark_seen [''a''] ''a'' = [''a'']"
  using
    seen_store_contract [of 3
      "[IsSeen ''a'', MarkSeen ''a'', MarkSeen ''a'', IsSeen ''a'', IsSeen ''b'']"
      "''a''" "[''a'']" "''a''"]
    seen_store_contract [of 0
      "[IsSeen ''a'', MarkSeen ''a'', MarkSeen ''a'', IsSeen ''a'', IsSeen ''b'']"
      "''a''" "[''a'']" "''a''"]
  by (simp add: is_seen_def)

section \<open>Properties of the pipeline\<close>

text \<open>The loop body with the copied record folded back, and its three outcomes.\<close>

lemma process_leads_step:
  "process_leads repr d (raw # rest) db acc =
     (case normalize_lead repr raw of
        Inl e \<Rightarrow> (Inl e, db)
      | Inr n \<Rightarrow>
          (case l_lead_id n of
             None \<Rightarrow> process_leads repr d rest db acc
           | Some lid \<Rightarrow>
               if lid = [] \<or> (\<not> truthy (l_email n) \<and> \<not> truthy (l_phone n)) \<or> lid \<in> set db
               then process_leads repr d rest db acc
               else process_leads repr d rest (if d then db else mark_seen db lid) (acc @ [n])))"
proof -
  have copy: "\<And>n :: lead.
    \<lparr> l_lead_id = l_lead_id n, l_created_time = l_created_time n, l_name = l_name n,
      l_email = l_email n, l_phone = l_phone n, l_raw = l_raw n \<rparr> = n"
    by simp
  show ?thesis
    unfolding process_leads.simps copy
    by (simp add: is_seen_iff split: sum.split option.split)
qed

lemma process_leads_error:
  "normalize_lead repr raw = Inl e \<Longrightarrow>
     process_leads repr d (raw # rest) db acc = (Inl e, db)"
  by simp

lemma process_leads_skip:
  "normalize_lead repr raw = Inr n \<Longrightarrow>
   l_lead_id n = None \<or> l_lead_id n = Some [] \<or> (\<not> truthy (l_email n) \<and> \<not> truthy (l_phone n))
     \<or> (\<exists>lid. l_lead_id n = Some lid \<and> lid \<in> set db) \<Longrightarrow>
     process_leads repr d (raw # rest) db acc = process_leads repr d rest db acc"
  by (auto simp add: process_leads_step simp del: process_leads.simps split: option.splits)

lemma process_leads_accept:
  "normalize_lead repr raw = Inr n \<Longrightarrow> l_lead_id n = Some lid \<Longrightarrow> lid \<noteq> [] \<Longrightarrow>
   truthy (l_email n) \<or> truthy (l_phone n) \<Longrightarrow> lid \<notin> set db \<Longrightarrow>
     process_leads repr d (raw # rest) db acc =
       process_leads repr d rest (if d then db else mark_seen db lid) (acc @ [n])"
  by (auto simp add: process_leads_step simp del: process_leads.simps)

lemma process_leads_cases:
  obtains (error) e where "normalize_lead repr raw = Inl e"
  | (skip) n where "normalize_lead repr raw = Inr n"
      "l_lead_id n = None \<or> l_lead_id n = Some [] \<or> (\<not> truthy (l_email n) \<and> \<not> truthy (l_phone n))
        \<or> (\<exists>lid. l_lead_id n = Some lid \<and> lid \<in> set db)"
  | (accept) n lid where "normalize_lead repr raw = Inr n" "l_lead_id n = Some lid" "lid \<noteq> []"
      "truthy (l_email n) \<or> truthy (l_phone n)" "lid \<notin> set db"
proof (cases "normalize_lead repr raw")
  case (Inl e)
  then show ?thesis by (rule error)
next
  case (Inr n)
  show ?thesis
  proof (cases "l_lead_id n = None \<or> l_lead_id n = Some [] \<or> (\<not> truthy (l_email n) \<and> \<not> truthy (l_phone n))
        \<or> (\<exists>lid. l_lead_id n = Some lid \<and> lid \<in> set db)")
    case True
    with Inr show ?thesis by (rule skip)
  next
    case False
    then obtain lid where "l_lead_id n = Some lid" by auto
    with False Inr show ?thesis by (intro accept [of n lid]) auto
  qed
qed

lemma process_leads_store_grows:
  "process_leads repr d raws db acc = (r, db') \<Longrightarrow> set db \<subseteq> set db'"
proof (induction raws arbitrary: db acc)
  case Nil
  then show ?case by simp
next
  case (Cons raw rest)
  show ?case
  proof (cases rule: process_leads_cases [where repr = repr and raw = raw and db = db])
    case (error e)
    with Cons.prems show ?thesis by simp
  next
    case (skip n)
    with Cons.prems Cons.IH [of db acc] show ?thesis
      by (simp only: process_leads_skip [OF skip])
  next
    case (accept n lid)
    from Cons.prems have "process_leads repr d rest (if d then db else mark_seen db lid) (acc @ [n]) = (r, db')"
      by (simp only: process_leads_accept [OF accept])
    from Cons.IH [OF this] show ?thesis
      by (auto simp add: set_mark_seen split: if_splits)
  qed
qed

lemma process_leads_rerun:
  "process_leads repr False raws db acc = (Inr out, db') \<Longrightarrow> set db' \<subseteq> set D \<Longrightarrow>
     process_leads repr d raws D acc2 = (Inr acc2, D)"
proof (induction raws arbitrary: db acc)
  case Nil
  then show ?case by simp
next
  case (Cons raw rest)
  show ?case
  proof (cases rule: process_leads_cases [where repr = repr and raw = raw and db = db])
    case (error e)
    with Cons.prems show ?thesis by simp
  next
    case (skip n)
    from Cons.prems(1) have run: "process_leads repr False rest db acc = (Inr out, db')"
      by (simp only: process_leads_skip [OF skip])
    from process_leads_store_grows [OF run] Cons.prems(2) have "set db \<subseteq> set D" by simp
    with skip have "l_lead_id n = None \<or> l_lead_id n = Some [] \<or> (\<not> truthy (l_email n) \<and> \<not> truthy (l_phone n))
        \<or> (\<exists>lid. l_lead_id n = Some lid \<and> lid \<in> set D)" by auto
    from process_leads_skip [OF skip(1) this] Cons.IH [OF run Cons.prems(2)]
    show ?thesis by simp
  next
    case (accept n lid)
    from Cons.prems(1) have run: "process_leads repr False rest (mark_seen db lid) (acc @ [n]) = (Inr out, db')"
      by (simp add: process_leads_accept [OF accept] del: process_leads.simps)
    from process_leads_store_grows [OF run] Cons.prems(2) have "lid \<in> set D"
      by (auto simp add: set_mark_seen)
    with accept have "l_lead_id n = None \<or> l_lead_id n = Some [] \<or> (\<not> truthy (l_email n) \<and> \<not> truthy (l_phone n))
        \<or> (\<exists>lid. l_lead_id n = Some lid \<and> lid \<in> set D)" by auto
    from process_leads_skip [OF accept(1) this] Cons.IH [OF run Cons.prems(2)]
    show ?thesis by simp
  qed
qed

lemma process_leads_out:
  "process_leads repr d raws db acc = (Inr out, db') \<Longrightarrow>
     \<exists>new. out = acc @ new
       \<and> (\<forall>a\<in>set new. \<exists>lid. l_lead_id a = Some lid \<and> lid \<noteq> [] \<and> lid \<notin> set db
              \<and> (truthy (l_email a) \<or> truthy (l_phone a))
              \<and> (\<exists>raw\<in>set raws. normalize_lead repr raw = Inr a))
       \<and> set db' = set db \<union> (if d then {} else {lid. Some lid \<in> l_lead_id ` set new})"
proof (induction raws arbitrary: db acc)
  case Nil
  then show ?case by simp
next
  case (Cons raw rest)
  show ?case
  proof (cases rule: process_leads_cases [where repr = repr and raw = raw and db = db])
    case (error e)
    with Cons.prems show ?thesis by simp
  next
    case (skip n)
    from Cons.prems have "process_leads repr d rest db acc = (Inr out, db')"
      by (simp only: process_leads_skip [OF skip])
    from Cons.IH [OF this] obtain new where new: "out = acc @ new"
      "\<forall>a\<in>set new. \<exists>lid. l_lead_id a = Some lid \<and> lid \<noteq> [] \<and> lid \<notin> set db
              \<and> (truthy (l_email a) \<or> truthy (l_phone a))
              \<and> (\<exists>raw\<in>set rest. normalize_lead repr raw = Inr a)"
      "set db' = set db \<union> (if d then {} else {lid. Some lid \<in> l_lead_id ` set new})"
      by blast
    from new(2) have "\<forall>a\<in>set new. \<exists>lid. l_lead_id a = Some lid \<and> lid \<noteq> [] \<and> lid \<notin> set db
              \<and> (truthy (l_email a) \<or> truthy (l_phone a))
              \<and> (\<exists>raw\<in>set (raw # rest). normalize_lead repr raw = Inr a)"
      by fastforce
    with new(1) new(3) show ?thesis by blast
  next
    case (accept n lid)
    let ?db1 = "if d then db else mark_seen db lid"
    from Cons.prems have "process_leads repr d rest ?db1 (acc @ [n]) = (Inr out, db')"
      by (simp only: process_leads_accept [OF accept])
    from Cons.IH [OF this] obtain new where new: "out = (acc @ [n]) @ new"
      "\<forall>a\<in>set new. \<exists>lid'. l_lead_id a = Some lid' \<and> lid' \<noteq> [] \<and> lid' \<notin> set ?db1
              \<and> (truthy (l_email a) \<or> truthy (l_phone a))
              \<and> (\<exists>raw\<in>set rest. normalize_lead repr raw = Inr a)"
      "set db' = set ?db1 \<union> (if d then {} else {lid. Some lid \<in> l_lead_id ` set new})"
      by blast
    have sub: "set db \<subseteq> set ?db1" by (auto simp add: set_mark_seen)
    have 1: "out = acc @ (n # new)" using new(1) by simp
    have 2: "\<forall>a\<in>set (n # new). \<exists>lid. l_lead_id a = Some lid \<and> lid \<noteq> [] \<and> lid \<notin> set db
              \<and> (truthy (l_email a) \<or> truthy (l_phone a))
              \<and> (\<exists>raw\<in>set (raw # rest). normalize_lead repr raw = Inr a)"
    proof
      fix a assume "a \<in> set (n # new)"
      then consider "a = n" | "a \<in> set new" by auto
      then show "\<exists>lid. l_lead_id a = Some lid \<and> lid \<noteq> [] \<and> lid \<notin> set db
              \<and> (truthy (l_email a) \<or> truthy (l_phone a))
              \<and> (\<exists>raw\<in>set (raw # rest). normalize_lead repr raw = Inr a)"
      proof cases
        case 1
        with accept show ?thesis by simp
      next
        case 2
        with new(2) sub show ?thesis by fastforce
      qed
    qed
    have 3: "set db' = set db \<union> (if d then {} else {lid. Some lid \<in> l_lead_id ` set (n # new)})"
      using new(3) accept(2) by (auto simp add: set_mark_seen)
    from 1 2 3 show ?thesis by blast
  qed
qed

lemma process_leads_dry_run_store: "snd (process_leads repr True raws db acc) = db"
proof (induction raws arbitrary: acc)
  case Nil
  show ?case by simp
next
  case (Cons raw rest)
  show ?case
  proof (cases rule: process_leads_cases [where repr = repr and raw = raw and db = db])
    case (error e)
    then show ?thesis by simp
  next
    case (skip n)
    show ?thesis using Cons.IH by (simp only: process_leads_skip [OF skip])
  next
    case (accept n lid)
    show ?thesis using Cons.IH by (simp only: process_leads_accept [OF accept] if_True)
  qed
qed

lemma process_leads_dry_vs_normal:
  "process_leads repr True raws db accT = (Inr (accT @ new), db') \<Longrightarrow>
   set D = set db \<union> X \<Longrightarrow>
   \<forall>a\<in>set new. \<forall>lid. l_lead_id a = Some lid \<longrightarrow> lid \<notin> X \<Longrightarrow>
   distinct (map l_lead_id new) \<Longrightarrow>
     \<exists>D'. process_leads repr False raws D accN = (Inr (accN @ new), D')"
proof (induction raws arbitrary: accT new D X accN)
  case Nil
  then show ?case by simp
next
  case (Cons raw rest)
  show ?case
  proof (cases rule: process_leads_cases [where repr = repr and raw = raw and db = db])
    case (error e)
    with Cons.prems show ?thesis by simp
  next
    case (skip n)
    from Cons.prems(1) have run: "process_leads repr True rest db accT = (Inr (accT @ new), db')"
      by (simp only: process_leads_skip [OF skip])
    from skip(2) Cons.prems(2)
    have "l_lead_id n = None \<or> l_lead_id n = Some [] \<or> (\<not> truthy (l_email n) \<and> \<not> truthy (l_phone n))
        \<or> (\<exists>lid. l_lead_id n = Some lid \<and> lid \<in> set D)" by auto
    from process_leads_skip [OF skip(1) this]
      Cons.IH [OF run Cons.prems(2) Cons.prems(3) Cons.prems(4), of accN]
    show ?thesis by simp
  next
    case (accept n lid)
    from Cons.prems(1) have run: "process_leads repr True rest db (accT @ [n]) = (Inr (accT @ new), db')"
      by (simp only: process_leads_accept [OF accept] if_True)
    from process_leads_out [OF run] obtain new' where "accT @ new = (accT @ [n]) @ new'"
      by blast
    then have new: "new = n # new'" by simp
    from new Cons.prems(3) accept(2) have notX: "lid \<notin> X" by simp
    with accept(5) Cons.prems(2) have notD: "lid \<notin> set D" by simp
    have run': "process_leads repr True rest db (accT @ [n]) = (Inr ((accT @ [n]) @ new'), db')"
      using run new by simp
    have D1: "set (mark_seen D lid) = set db \<union> (insert lid X)"
      using Cons.prems(2) by (simp add: set_mark_seen)
    have X1: "\<forall>a\<in>set new'. \<forall>l. l_lead_id a = Some l \<longrightarrow> l \<notin> insert lid X"
      using Cons.prems(3) Cons.prems(4) new accept(2) by force
    have dist: "distinct (map l_lead_id new')" using Cons.prems(4) new by simp
    from Cons.IH [OF run' D1 X1 dist, of "accN @ [n]"] obtain D' where
      "process_leads repr False rest (mark_seen D lid) (accN @ [n]) = (Inr ((accN @ [n]) @ new'), D')"
      by blast
    then have "process_leads repr False (raw # rest) D accN = (Inr (accN @ new), D')"
      using new by (simp add: process_leads_accept [OF accept(1-4) notD] del: process_leads.simps)
    then show ?thesis by blast
  qed
qed

lemma process_leads_distinct:
  "process_leads repr False raws db acc = (Inr (acc @ new), db') \<Longrightarrow>
     distinct (map l_lead_id new)"
proof (induction raws arbitrary: db acc new)
  case Nil
  then show ?case by simp
next
  case (Cons raw rest)
  show ?case
  proof (cases rule: process_leads_cases [where repr = repr and raw = raw and db = db])
    case (error e)
    with Cons.prems show ?thesis by simp
  next
    case (skip n)
    from Cons.prems have "process_leads repr False rest db acc = (Inr (acc @ new), db')"
      by (simp only: process_leads_skip [OF skip])
    from Cons.IH [OF this] show ?thesis .
  next
    case (accept n lid)
    from Cons.prems have run: "process_leads repr False rest (mark_seen db lid) (acc @ [n]) = (Inr (acc @ new), db')"
      by (simp add: process_leads_accept [OF accept] del: process_leads.simps)
    from process_leads_out [OF run] obtain new' where new':
      "acc @ new = (acc @ [n]) @ new'"
      "\<forall>a\<in>set new'. \<exists>l. l_lead_id a = Some l \<and> l \<notin> set (mark_seen db lid)"
      by blast
    then have new: "new = n # new'" by simp
    from run new have "process_leads repr False rest (mark_seen db lid) (acc @ [n]) = (Inr ((acc @ [n]) @ new'), db')"
      by simp
    from Cons.IH [OF this] have "distinct (map l_lead_id new')" .
    moreover have "l_lead_id n \<notin> l_lead_id ` set new'"
      using new'(2) accept(2) by (force simp add: set_mark_seen)
    ultimately show ?thesis using new by simp
  qed
qed


text \<open>
  Claim C1 (idempotence). When a run with dry-run off over \<open>raws\<close> completes on the
  store \<open>db\<close> and leaves the store \<open>db'\<close>, a second run over the same \<open>raws\<close> on
  \<open>db'\<close> completes, accepts no record and leaves \<open>db'\<close> as it is.
\<close>

theorem pipeline_idempotent:
  "process_leads repr False raws db [] = (Inr out, db') \<Longrightarrow>
     process_leads repr False raws db' [] = (Inr [], db')"
  by (rule process_leads_rerun [of repr raws db "[]" out db']) simp_all

theorem pipeline_idempotent_witness:
  "process_leads (\<lambda>v. []) False [raw_mail, raw_nocontact, raw_phone] [''0''] []
     = (Inr [lead_mail], [''0'', ''1''])
   \<and> process_leads (\<lambda>v. []) False [raw_mail, raw_nocontact, raw_phone] [''0'', ''1''] []
     = (Inr [], [''0'', ''1''])"
proof -
  have run: "process_leads (\<lambda>v. []) False [raw_mail, raw_nocontact, raw_phone] [''0''] []
     = (Inr [lead_mail], [''0'', ''1''])"
    by code_simp
  from pipeline_idempotent [OF run] run show ?thesis by simp
qed

text \<open>
  Claim C2. A raw record whose normalized identifier is absent or empty, or whose
  normalized e-mail and phone are both falsy, leaves the accepted batch and the store as
  they are, and the loop goes on with the next record. Over a whole run, every accepted
  record has a non-empty identifier and an e-mail or a phone, and the store gains
  nothing but identifiers of accepted records.
\<close>

theorem invalid_lead_skipped:
  "(normalize_lead repr raw = Inr n \<and>
      (l_lead_id n = None \<or> l_lead_id n = Some [] \<or>
       (\<not> truthy (l_email n) \<and> \<not> truthy (l_phone n))) \<longrightarrow>
      process_leads repr dry_run (raw # rest) db new_leads =
        process_leads repr dry_run rest db new_leads)
   \<and> (process_leads repr dry_run raws db [] = (Inr out, db') \<longrightarrow>
        (\<forall>a\<in>set out. \<exists>lid. l_lead_id a = Some lid \<and> lid \<noteq> [] \<and>
            (truthy (l_email a) \<or> truthy (l_phone a))) \<and>
        set db' \<subseteq> set db \<union> {lid. Some lid \<in> l_lead_id ` set out})"
proof (intro conjI impI)
  assume "normalize_lead repr raw = Inr n \<and>
      (l_lead_id n = None \<or> l_lead_id n = Some [] \<or>
       (\<not> truthy (l_email n) \<and> \<not> truthy (l_phone n)))"
  then show "process_leads repr dry_run (raw # rest) db new_leads =
        process_leads repr dry_run rest db new_leads"
    by (intro process_leads_skip [of repr raw n]) auto
next
  assume run: "process_leads repr dry_run raws db [] = (Inr out, db')"
  from process_leads_out [OF run]
  show "\<forall>a\<in>set out. \<exists>lid. l_lead_id a = Some lid \<and> lid \<noteq> [] \<and>
            (truthy (l_email a) \<or> truthy (l_phone a))"
    by fastforce
  from process_leads_out [OF run]
  show "set db' \<subseteq> set db \<union> {lid. Some lid \<in> l_lead_id ` set out}"
    by (auto split: if_splits)
qed

theorem invalid_lead_skipped_witness:
  "process_leads (\<lambda>v. []) False [raw_nocontact, raw_mail] [] [lead_phone]
     = process_leads (\<lambda>v. []) False [raw_mail] [] [lead_phone]
   \<and> process_leads (\<lambda>v. []) False [raw_noid, raw_mail] [] [lead_phone]
     = process_leads (\<lambda>v. []) False [raw_mail] [] [lead_phone]
   \<and> process_leads (\<lambda>v. []) False [raw_noid, raw_nocontact, raw_mail] [] []
     = (Inr [lead_mail], [''1''])"
proof -
  have n1: "normalize_lead (\<lambda>v. []) raw_nocontact
      = Inr \<lparr> l_lead_id = Some ''2'', l_created_time = JNull, l_name = JNull,
              l_email = JNull, l_phone = JNull, l_raw = raw_nocontact \<rparr>"
    by code_simp
  have n2: "normalize_lead (\<lambda>v. []) raw_noid
      = Inr \<lparr> l_lead_id = None, l_created_time = JNull, l_name = JNull,
              l_email = JStr ''b@y.com'', l_phone = JNull, l_raw = raw_noid \<rparr>"
    by code_simp
  have run: "process_leads (\<lambda>v. []) False [raw_noid, raw_nocontact, raw_mail] [] []
     = (Inr [lead_mail], [''1''])"
    by code_simp
  from invalid_lead_skipped [where repr = "\<lambda>v. []" and raw = raw_nocontact and dry_run = False
      and rest = "[raw_mail]" and db = "[]" and new_leads = "[lead_phone]"] n1
  have s1: "process_leads (\<lambda>v. []) False [raw_nocontact, raw_mail] [] [lead_phone]
     = process_leads (\<lambda>v. []) False [raw_mail] [] [lead_phone]"
    by simp
  from invalid_lead_skipped [where repr = "\<lambda>v. []" and raw = raw_noid and dry_run = False
      and rest = "[raw_mail]" and db = "[]" and new_leads = "[lead_phone]"] n2
  have s2: "process_leads (\<lambda>v. []) False [raw_noid, raw_mail] [] [lead_phone]
     = process_leads (\<lambda>v. []) False [raw_mail] [] [lead_phone]"
    by simp
  from s1 s2 run show ?thesis by simp
qed

text \<open>
  Claim C9. With dry-run off, the accepted records of a completed run carry pairwise
  distinct identifiers, none of which was in the store before the run and all of which
  are in the store after it: a second input record with an identifier accepted earlier
  in the same run is rejected as already seen.
\<close>

theorem accepted_once_per_run:
  "process_leads repr False raws db [] = (Inr out, db') \<Longrightarrow>
     distinct (map l_lead_id out) \<and>
     (\<forall>a\<in>set out. \<exists>lid. l_lead_id a = Some lid \<and> lid \<notin> set db \<and> lid \<in> set db')"
proof
  assume run: "process_leads repr False raws db [] = (Inr out, db')"
  then have "process_leads repr False raws db [] = (Inr ([] @ out), db')" by simp
  then show "distinct (map l_lead_id out)" by (rule process_leads_distinct)
  from process_leads_out [OF run] obtain new where new: "out = [] @ new"
    "\<forall>a\<in>set new. \<exists>lid. l_lead_id a = Some lid \<and> lid \<noteq> [] \<and> lid \<notin> set db
        \<and> (truthy (l_email a) \<or> truthy (l_phone a))
        \<and> (\<exists>raw\<in>set raws. normalize_lead repr raw = Inr a)"
    "set db' = set db \<union> (if False then {} else {lid. Some lid \<in> l_lead_id ` set new})"
    by blast
  show "\<forall>a\<in>set out. \<exists>lid. l_lead_id a = Some lid \<and> lid \<notin> set db \<and> lid \<in> set db'"
  proof
    fix a assume a: "a \<in> set out"
    with new(1) new(2) obtain lid where lid: "l_lead_id a = Some lid" "lid \<notin> set db"
      by auto
    from a new(1) lid(1) have "Some lid \<in> l_lead_id ` set new" by force
    with new(3) have "lid \<in> set db'" by simp
    with lid show "\<exists>lid. l_lead_id a = Some lid \<and> lid \<notin> set db \<and> lid \<in> set db'" by blast
  qed
qed

theorem accepted_once_per_run_witness:
  "process_leads (\<lambda>v. []) False [raw_mail, raw_phone, raw_mail] [] [] = (Inr [lead_mail], [''1''])
   \<and> distinct (map l_lead_id [lead_mail])"
proof -
  have run: "process_leads (\<lambda>v. []) False [raw_mail, raw_phone, raw_mail] [] []
      = (Inr [lead_mail], [''1''])"
    by code_simp
  from accepted_once_per_run [OF run] run show ?thesis by simp
qed

text \<open>
  Claim C8, as the code has it. A dry run leaves the store exactly as it was, whatever
  the input. Its accepted batch is the batch of a normal run whenever the records it
  accepts carry pairwise distinct identifiers; with a repeated identifier the dry run
  accepts every copy, because nothing is marked, while a normal run accepts the first
  only.
\<close>

theorem dry_run_frame:
  "snd (process_leads repr True raws db []) = db
   \<and> (process_leads repr True raws db [] = (Inr out, db') \<and> distinct (map l_lead_id out) \<longrightarrow>
        (\<exists>db''. process_leads repr False raws db [] = (Inr out, db'')))"
proof (intro conjI impI)
  show "snd (process_leads repr True raws db []) = db"
    by (rule process_leads_dry_run_store)
next
  assume a: "process_leads repr True raws db [] = (Inr out, db') \<and> distinct (map l_lead_id out)"
  then have run: "process_leads repr True raws db [] = (Inr ([] @ out), db')" by simp
  from process_leads_dry_vs_normal [OF run, of db "{}" "[]"] a
  show "\<exists>db''. process_leads repr False raws db [] = (Inr out, db'')" by simp
qed

theorem dry_run_frame_witness:
  "process_leads (\<lambda>v. []) True [raw_mail, raw_nocontact] [''0''] [] = (Inr [lead_mail], [''0''])
   \<and> process_leads (\<lambda>v. []) False [raw_mail, raw_nocontact] [''0''] []
       = (Inr [lead_mail], [''0'', ''1''])"
proof -
  have dry: "process_leads (\<lambda>v. []) True [raw_mail, raw_nocontact] [''0''] []
      = (Inr [lead_mail], [''0''])"
    by code_simp
  have normal: "process_leads (\<lambda>v. []) False [raw_mail, raw_nocontact] [''0''] []
      = (Inr [lead_mail], [''0'', ''1''])"
    by code_simp
  from dry_run_frame [of "\<lambda>v. []" "[raw_mail, raw_nocontact]" "[''0'']" "[lead_mail]" "[''0'']"]
    dry normal
  show ?thesis by simp
qed

theorem dry_run_batch_counterexample:
  "process_leads (\<lambda>v. []) True [raw_mail, raw_mail] [] [] = (Inr [lead_mail, lead_mail], [])
   \<and> process_leads (\<lambda>v. []) False [raw_mail, raw_mail] [] [] = (Inr [lead_mail], [''1''])"
  by code_simp

section \<open>Properties of the normalizer\<close>

lemma starts_with_iff: "starts_with s p \<longleftrightarrow> (\<exists>ss. s = p @ ss)"
  by (induction s p rule: starts_with.induct) auto

lemma py_in_iff: "py_in sub s \<longleftrightarrow> (\<exists>ps ss. s = ps @ sub @ ss)"
proof (induction s)
  case Nil
  then show ?case by auto
next
  case (Cons c cs)
  show ?case
  proof
    assume "py_in sub (c # cs)"
    then consider "starts_with (c # cs) sub" | "py_in sub cs" by auto
    then show "\<exists>ps ss. c # cs = ps @ sub @ ss"
    proof cases
      case 1
      then obtain ss where "c # cs = sub @ ss" by (auto simp: starts_with_iff)
      then have "c # cs = [] @ sub @ ss" by simp
      then show ?thesis by blast
    next
      case 2
      with Cons.IH obtain ps ss where "cs = ps @ sub @ ss" by blast
      then have "c # cs = (c # ps) @ sub @ ss" by simp
      then show ?thesis by blast
    qed
  next
    assume "\<exists>ps ss. c # cs = ps @ sub @ ss"
    then obtain ps ss where eq: "c # cs = ps @ sub @ ss" by blast
    show "py_in sub (c # cs)"
    proof (cases ps)
      case Nil
      with eq have "starts_with (c # cs) sub" by (auto simp: starts_with_iff)
      then show ?thesis by simp
    next
      case (Cons a as)
      with eq have "cs = as @ sub @ ss" by simp
      with Cons.IH have "py_in sub cs" by blast
      then show ?thesis by simp
    qed
  qed
qed

lemma py_in_name_specializations:
  "(py_in ''name'' key \<or> py_in ''full_name'' key \<or> py_in ''first_name'' key) = py_in ''name'' key"
proof -
  have "py_in ''name'' key" if "py_in ''full_name'' key"
  proof -
    from that obtain ps ss where "key = ps @ ''full_name'' @ ss" by (auto simp: py_in_iff)
    then have "key = (ps @ ''full_'') @ ''name'' @ ss" by simp
    then show ?thesis unfolding py_in_iff by blast
  qed
  moreover have "py_in ''name'' key" if "py_in ''first_name'' key"
  proof -
    from that obtain ps ss where "key = ps @ ''first_name'' @ ss" by (auto simp: py_in_iff)
    then have "key = (ps @ ''first_'') @ ''name'' @ ss" by simp
    then show ?thesis unfolding py_in_iff by blast
  qed
  ultimately show ?thesis by blast
qed



lemma py_in_full_name: "py_in ''full_name'' key \<Longrightarrow> py_in ''name'' key"
  using py_in_name_specializations [of key] by blast

lemma py_in_first_name: "py_in ''first_name'' key \<Longrightarrow> py_in ''name'' key"
  using py_in_name_specializations [of key] by blast

lemma field_key_spec: "field_key field = Inr key \<Longrightarrow> spec_entry_key (JObj field) = key"
  by (cases "dict_get field ''name''")
     (auto simp: field_key_def py_or_def py_lower_def split: if_splits json.splits)

lemma field_val_spec:
  "field_val field = Inr val \<Longrightarrow>
     spec_entry_value (JObj field) =
       (case val of JStr s \<Rightarrow> if s = [] then None else Some s | _ \<Rightarrow> None)"
  by (cases "dict_get field ''values''")
     (auto simp: field_val_def py_or_def Let_def neq_Nil_conv split: if_splits json.splits list.splits)


lemma normalize_field_eq:
  "field_key field = Inr key \<Longrightarrow> field_val field = Inr val \<Longrightarrow>
   normalize_field (JObj field) (n, e, p) =
     (if \<not> truthy val then Inr (n, e, p)
      else if py_in ''email'' key then
        (case or_stripped e val py_lower of Inl x \<Rightarrow> Inl x | Inr e' \<Rightarrow> Inr (n, e', p))
      else if py_in ''name'' key then
        (case or_stripped n val (\<lambda>s. s) of Inl x \<Rightarrow> Inl x | Inr n' \<Rightarrow> Inr (n', e, p))
      else if py_in ''phone'' key \<or> py_in ''mobile'' key then
        (case or_stripped p val (\<lambda>s. s) of Inl x \<Rightarrow> Inl x | Inr p' \<Rightarrow> Inr (n, e, p'))
      else Inr (n, e, p))"
  by (simp add: py_in_name_specializations)

lemma or_stripped_truthy: "truthy x \<Longrightarrow> or_stripped x val f = Inr x"
  by (simp add: or_stripped_def)

lemma or_stripped_falsy:
  "\<not> truthy x \<Longrightarrow> or_stripped x val f = Inr y \<Longrightarrow> \<exists>s. val = JStr s \<and> y = JStr (f (py_strip s))"
  by (cases val) (auto simp add: or_stripped_def)

lemma normalize_field_email:
  assumes "normalize_field f (n, e, p) = Inr (n', e', p')"
  shows "(truthy e \<longrightarrow> e' = e) \<and>
    (\<not> truthy e \<longrightarrow> (case spec_assign Email f of Some v \<Rightarrow> e' = JStr v | None \<Rightarrow> e' = e))"
proof -
  from assms obtain field where f: "f = JObj field" by (cases f) auto
  from assms f obtain key where key: "field_key field = Inr key"
    by (auto split: sum.splits)
  from assms f key obtain val where val: "field_val field = Inr val"
    by (auto split: sum.splits)
  note k = field_key_spec [OF key]
  note v = field_val_spec [OF val]
  show ?thesis
  proof (cases "truthy val \<and> py_in ''email'' key")
    case False
    with assms [unfolded f normalize_field_eq [OF key val]] have "e' = e"
      by (auto split: sum.splits if_splits)
    moreover from False have "spec_assign Email f = None"
      using f k v by (cases val) (auto simp add: spec_assign_def spec_classify_def)
    ultimately show ?thesis by simp
  next
    case True
    with assms [unfolded f normalize_field_eq [OF key val]]
    have os: "or_stripped e val py_lower = Inr e'"
      by (auto split: sum.splits)
    show ?thesis
    proof (cases "truthy e")
      case True
      with os show ?thesis by (simp add: or_stripped_truthy)
    next
      case False
      from or_stripped_falsy [OF False os] obtain s where s: "val = JStr s" "e' = JStr (py_lower (py_strip s))"
        by blast
      with True have "s \<noteq> []" by auto
      with s True f k v have "spec_assign Email f = Some (py_lower (py_strip s))"
        by (simp add: spec_assign_def spec_classify_def)
      with s False show ?thesis by simp
    qed
  qed
qed


lemma normalize_field_name:
  assumes "normalize_field f (n, e, p) = Inr (n', e', p')"
  shows "(truthy n \<longrightarrow> n' = n) \<and>
    (\<not> truthy n \<longrightarrow> (case spec_assign Name f of Some v \<Rightarrow> n' = JStr v | None \<Rightarrow> n' = n))"
proof -
  from assms obtain field where f: "f = JObj field" by (cases f) auto
  from assms f obtain key where key: "field_key field = Inr key"
    by (auto split: sum.splits)
  from assms f key obtain val where val: "field_val field = Inr val"
    by (auto split: sum.splits)
  note k = field_key_spec [OF key]
  note v = field_val_spec [OF val]
  show ?thesis
  proof (cases "truthy val \<and> \<not> py_in ''email'' key \<and> py_in ''name'' key")
    case False
    with assms [unfolded f normalize_field_eq [OF key val]] have "n' = n"
      by (auto split: sum.splits if_splits)
    moreover from False have "spec_assign Name f = None"
      using f k v by (cases val) (auto simp add: spec_assign_def spec_classify_def)
    ultimately show ?thesis by simp
  next
    case True
    with assms [unfolded f normalize_field_eq [OF key val]]
    have os: "or_stripped n val (\<lambda>s. s) = Inr n'"
      by (auto split: sum.splits)
    show ?thesis
    proof (cases "truthy n")
      case True
      with os show ?thesis by (simp add: or_stripped_truthy)
    next
      case False
      from or_stripped_falsy [OF False os] obtain s where s: "val = JStr s" "n' = JStr (py_strip s)"
        by blast
      with True have "s \<noteq> []" by auto
      with s True f k v have "spec_assign Name f = Some (py_strip s)"
        by (simp add: spec_assign_def spec_classify_def)
      with s False show ?thesis by simp
    qed
  qed
qed

lemma normalize_field_phone:
  assumes "normalize_field f (n, e, p) = Inr (n', e', p')"
  shows "(truthy p \<longrightarrow> p' = p) \<and>
    (\<not> truthy p \<longrightarrow> (case spec_assign Phone f of Some v \<Rightarrow> p' = JStr v | None \<Rightarrow> p' = p))"
proof -
  from assms obtain field where f: "f = JObj field" by (cases f) auto
  from assms f obtain key where key: "field_key field = Inr key"
    by (auto split: sum.splits)
  from assms f key obtain val where val: "field_val field = Inr val"
    by (auto split: sum.splits)
  note k = field_key_spec [OF key]
  note v = field_val_spec [OF val]
  show ?thesis
  proof (cases "truthy val \<and> \<not> py_in ''email'' key \<and> \<not> py_in ''name'' key
      \<and> (py_in ''phone'' key \<or> py_in ''mobile'' key)")
    case False
    with assms [unfolded f normalize_field_eq [OF key val]] have "p' = p"
      by (auto split: sum.splits if_splits)
    moreover from False have "spec_assign Phone f = None"
      using f k v by (cases val) (auto simp add: spec_assign_def spec_classify_def)
    ultimately show ?thesis by simp
  next
    case True
    with assms [unfolded f normalize_field_eq [OF key val]]
    have os: "or_stripped p val (\<lambda>s. s) = Inr p'"
      by (auto split: sum.splits)
    show ?thesis
    proof (cases "truthy p")
      case True
      with os show ?thesis by (simp add: or_stripped_truthy)
    next
      case False
      from or_stripped_falsy [OF False os] obtain s where s: "val = JStr s" "p' = JStr (py_strip s)"
        by blast
      with True have "s \<noteq> []" by auto
      with s True f k v have "spec_assign Phone f = Some (py_strip s)"
        by (auto simp add: spec_assign_def spec_classify_def)
      with s False show ?thesis by simp
    qed
  qed
qed

lemma normalize_field_slot:
  assumes "normalize_field f st = Inr st'"
  shows "(truthy (slot tgt st) \<longrightarrow> slot tgt st' = slot tgt st) \<and>
    (\<not> truthy (slot tgt st) \<longrightarrow>
       (case spec_assign tgt f of Some v \<Rightarrow> slot tgt st' = JStr v
        | None \<Rightarrow> slot tgt st' = slot tgt st))"
proof -
  obtain n e p where st: "st = (n, e, p)" by (cases st) auto
  obtain n' e' p' where st': "st' = (n', e', p')" by (cases st') auto
  from assms st st' have run: "normalize_field f (n, e, p) = Inr (n', e', p')" by simp
  show ?thesis
  proof (cases tgt)
    case Email
    with normalize_field_email [OF run] st st' show ?thesis by (auto split: option.splits)
  next
    case Name
    with normalize_field_name [OF run] st st' show ?thesis by (auto split: option.splits)
  next
    case Phone
    with normalize_field_phone [OF run] st st' show ?thesis by (auto split: option.splits)
  qed
qed

lemma normalize_fields_slot:
  "normalize_fields fs st = Inr st' \<Longrightarrow>
    (truthy (slot tgt st) \<longrightarrow> slot tgt st' = slot tgt st) \<and>
    (\<not> truthy (slot tgt st) \<longrightarrow>
       (case spec_first tgt fs of Some v \<Rightarrow> slot tgt st' = JStr v
        | None \<Rightarrow> \<not> truthy (slot tgt st')))"
proof (induction fs arbitrary: st)
  case Nil
  then show ?case by simp
next
  case (Cons f rest)
  from Cons.prems obtain st1 where step: "normalize_field f st = Inr st1"
    and run: "normalize_fields rest st1 = Inr st'"
    by (auto split: sum.splits)
  note s = normalize_field_slot [OF step, of tgt]
  note ih = Cons.IH [OF run]
  show ?case
  proof (cases "truthy (slot tgt st)")
    case True
    with s ih show ?thesis by simp
  next
    case False
    show ?thesis
    proof (cases "spec_assign tgt f")
      case None
      with False s ih show ?thesis by simp
    next
      case (Some v)
      with False s have st1: "slot tgt st1 = JStr v" by simp
      show ?thesis
      proof (cases "v = []")
        case True
        with st1 Some False ih show ?thesis by simp
      next
        case nonempty: False
        with st1 ih have "slot tgt st' = JStr v" by simp
        with Some nonempty False show ?thesis by simp
      qed
    qed
  qed
qed

lemma spec_first_nonempty: "spec_first tgt fs = Some v \<Longrightarrow> v \<noteq> []"
  by (induction fs) (auto split: option.splits if_splits)


lemma normalize_lead_fields:
  assumes "normalize_lead repr (JObj raw) = Inr r" "py_iter (field_data_of raw) = Inr fs"
  obtains name email phone where
    "normalize_fields fs (JNull, JNull, JNull) = Inr (name, email, phone)"
    "l_name r = py_or (py_or name (dict_get raw ''name'')) (dict_get raw ''full_name'')"
    "l_email r = py_or (py_or email (dict_get raw ''email'')) (dict_get raw ''email_address'')"
    "l_phone r = py_or (py_or phone (dict_get raw ''phone'')) (dict_get raw ''phone_number'')"
  using assms by (auto simp add: Let_def split: sum.splits)

lemma py_or_truthy: "truthy a \<Longrightarrow> py_or (py_or a b) c = a"
  by (simp add: py_or_def)

text \<open>
  Claim C4. When \<^verbatim>\<open>normalize_lead\<close> returns on a raw record whose field data iterates
  as \<open>fs\<close>, each of e-mail, name and phone is the value that the specification's rule
  picks from \<open>fs\<close>, whenever the rule picks one: entries are classified by substring
  containment on the lower-cased name, and the first entry with a non-empty value for a
  target decides, whatever later entries say. On the entries
  \<^verbatim>\<open>Email Address: ["A@X.com "]\<close>, \<^verbatim>\<open>email2: ["b@y.com"]\<close> the e-mail is
  \<^verbatim>\<open>a@x.com\<close>.
\<close>

theorem field_list_precedence:
  "normalize_lead repr (JObj raw) = Inr r \<and> py_iter (field_data_of raw) = Inr fs \<longrightarrow>
     (\<forall>v. spec_first Email fs = Some v \<longrightarrow> l_email r = JStr v) \<and>
     (\<forall>v. spec_first Name fs = Some v \<longrightarrow> l_name r = JStr v) \<and>
     (\<forall>v. spec_first Phone fs = Some v \<longrightarrow> l_phone r = JStr v)"
proof
  assume a: "normalize_lead repr (JObj raw) = Inr r \<and> py_iter (field_data_of raw) = Inr fs"
  then obtain name email phone where
    run: "normalize_fields fs (JNull, JNull, JNull) = Inr (name, email, phone)" and
    r: "l_name r = py_or (py_or name (dict_get raw ''name'')) (dict_get raw ''full_name'')"
      "l_email r = py_or (py_or email (dict_get raw ''email'')) (dict_get raw ''email_address'')"
      "l_phone r = py_or (py_or phone (dict_get raw ''phone'')) (dict_get raw ''phone_number'')"
    by (blast elim: normalize_lead_fields)
  have pick: "slot tgt (name, email, phone) = JStr v \<and> v \<noteq> []"
    if "spec_first tgt fs = Some v" for tgt v
    using normalize_fields_slot [OF run, of tgt] that spec_first_nonempty [OF that]
    by (cases tgt) simp_all
  show "(\<forall>v. spec_first Email fs = Some v \<longrightarrow> l_email r = JStr v) \<and>
     (\<forall>v. spec_first Name fs = Some v \<longrightarrow> l_name r = JStr v) \<and>
     (\<forall>v. spec_first Phone fs = Some v \<longrightarrow> l_phone r = JStr v)"
    using pick [of Email] pick [of Name] pick [of Phone] r
    by (auto simp add: py_or_truthy)
qed

theorem field_list_precedence_witness:
  "spec_first Email [entry_email_address, entry_email2] = Some ''a@x.com''
   \<and> normalize_lead (\<lambda>v. []) raw_two_emails =
       Inr \<lparr> l_lead_id = None, l_created_time = JNull, l_name = JNull,
             l_email = JStr ''a@x.com'', l_phone = JNull, l_raw = raw_two_emails \<rparr>"
proof -
  have n: "normalize_lead (\<lambda>v. []) raw_two_emails =
       Inr \<lparr> l_lead_id = None, l_created_time = JNull, l_name = JNull,
             l_email = JStr ''a@x.com'', l_phone = JNull, l_raw = raw_two_emails \<rparr>"
    by code_simp
  have it: "py_iter (field_data_of
       [(''field_data'', JList [entry_email_address, entry_email2])])
     = Inr [entry_email_address, entry_email2]"
    by code_simp
  have sf: "spec_first Email [entry_email_address, entry_email2] = Some ''a@x.com''"
    by code_simp
  from field_list_precedence [of "\<lambda>v. []"
      "[(''field_data'', JList [entry_email_address, entry_email2])]" _
      "[entry_email_address, entry_email2]"] n it sf
  show ?thesis by simp
qed

text \<open>
  Claim C6. When \<^verbatim>\<open>normalize_lead\<close> returns and the loop over the field data has left
  \<open>(name, email, phone)\<close>, each attribute that the loop left set is that value, and each
  attribute it left unset (falsy) is the raw record's first direct key if that is truthy
  and the second direct key otherwise, in the order \<^verbatim>\<open>email\<close>, \<^verbatim>\<open>email_address\<close>;
  \<^verbatim>\<open>phone\<close>, \<^verbatim>\<open>phone_number\<close>; \<^verbatim>\<open>name\<close>, \<^verbatim>\<open>full_name\<close>. The value is the raw
  value itself, neither trimmed nor lower-cased.
\<close>

theorem fallback_direct_keys:
  "normalize_lead repr (JObj raw) = Inr r \<and> py_iter (field_data_of raw) = Inr fs \<and>
   normalize_fields fs (JNull, JNull, JNull) = Inr (name, email, phone) \<longrightarrow>
     l_email r = (if truthy email then email
                  else if truthy (dict_get raw ''email'') then dict_get raw ''email''
                  else dict_get raw ''email_address'') \<and>
     l_phone r = (if truthy phone then phone
                  else if truthy (dict_get raw ''phone'') then dict_get raw ''phone''
                  else dict_get raw ''phone_number'') \<and>
     l_name r = (if truthy name then name
                 else if truthy (dict_get raw ''name'') then dict_get raw ''name''
                 else dict_get raw ''full_name'')"
proof
  assume a: "normalize_lead repr (JObj raw) = Inr r \<and> py_iter (field_data_of raw) = Inr fs \<and>
   normalize_fields fs (JNull, JNull, JNull) = Inr (name, email, phone)"
  then obtain name' email' phone' where
    run: "normalize_fields fs (JNull, JNull, JNull) = Inr (name', email', phone')" and
    r: "l_name r = py_or (py_or name' (dict_get raw ''name'')) (dict_get raw ''full_name'')"
      "l_email r = py_or (py_or email' (dict_get raw ''email'')) (dict_get raw ''email_address'')"
      "l_phone r = py_or (py_or phone' (dict_get raw ''phone'')) (dict_get raw ''phone_number'')"
    by (blast elim: normalize_lead_fields)
  from run a have eq: "name' = name" "email' = email" "phone' = phone" by simp_all
  have or3: "py_or (py_or x y) z = (if truthy x then x else if truthy y then y else z)" for x y z
    by (simp add: py_or_def)
  show "l_email r = (if truthy email then email
                  else if truthy (dict_get raw ''email'') then dict_get raw ''email''
                  else dict_get raw ''email_address'') \<and>
     l_phone r = (if truthy phone then phone
                  else if truthy (dict_get raw ''phone'') then dict_get raw ''phone''
                  else dict_get raw ''phone_number'') \<and>
     l_name r = (if truthy name then name
                 else if truthy (dict_get raw ''name'') then dict_get raw ''name''
                 else dict_get raw ''full_name'')"
    unfolding r eq or3 by (intro conjI refl)
qed

theorem fallback_direct_keys_witness:
  "normalize_lead (\<lambda>v. []) raw_fallback =
     Inr \<lparr> l_lead_id = Some ''9'', l_created_time = JNull, l_name = JStr ''Ann'',
           l_email = JStr '' C@Z.com '', l_phone = JStr ''555 '', l_raw = raw_fallback \<rparr>"
proof -
  have n: "normalize_lead (\<lambda>v. []) raw_fallback =
     Inr \<lparr> l_lead_id = Some ''9'', l_created_time = JNull, l_name = JStr ''Ann'',
           l_email = JStr '' C@Z.com '', l_phone = JStr ''555 '', l_raw = raw_fallback \<rparr>"
    by code_simp
  have it: "py_iter (field_data_of
       [(''id'', JStr ''9''), (''email_address'', JStr '' C@Z.com ''),
        (''phone_number'', JStr ''555 ''), (''full_name'', JStr ''Ann'')]) = Inr []"
    by code_simp
  have run: "normalize_fields [] (JNull, JNull, JNull) = Inr (JNull, JNull, JNull)"
    by simp
  from fallback_direct_keys [of "\<lambda>v. []"
      "[(''id'', JStr ''9''), (''email_address'', JStr '' C@Z.com ''),
        (''phone_number'', JStr ''555 ''), (''full_name'', JStr ''Ann'')]" _ "[]"
      JNull JNull JNull] n it run
  show ?thesis by simp
qed

lemma well_typed_key: "well_typed_field (JObj field) \<Longrightarrow> \<exists>key. field_key field = Inr key"
  by (auto simp add: field_key_def split: json.splits)

lemma well_typed_val:
  "well_typed_field (JObj field) \<Longrightarrow>
     \<exists>val. field_val field = Inr val \<and> (truthy val \<longrightarrow> (\<exists>s. val = JStr s))"
  by (cases "py_or (dict_get field ''values'') (JList [])")
     (auto simp add: field_val_def Let_def split: json.splits list.splits)

lemma or_stripped_str: "\<exists>y. or_stripped x (JStr s) f = Inr y"
  by (simp add: or_stripped_def)

lemma well_typed_field_ok:
  assumes "well_typed_field f"
  shows "\<exists>st'. normalize_field f st = Inr st'"
proof -
  from assms obtain field where f: "f = JObj field" by (cases f) auto
  obtain n e p where st: "st = (n, e, p)" by (rule prod_cases3)
  from assms f obtain key where key: "field_key field = Inr key"
    using well_typed_key by blast
  from assms f obtain val where val: "field_val field = Inr val"
    and str: "truthy val \<longrightarrow> (\<exists>s. val = JStr s)"
    using well_typed_val by blast
  show ?thesis
  proof (cases "truthy val")
    case False
    then show ?thesis unfolding f st normalize_field_eq [OF key val] by simp
  next
    case True
    with str obtain s where s: "val = JStr s" by blast
    obtain e1 n1 p1 where os: "or_stripped e (JStr s) py_lower = Inr e1"
      "or_stripped n (JStr s) (\<lambda>s. s) = Inr n1" "or_stripped p (JStr s) (\<lambda>s. s) = Inr p1"
      using or_stripped_str by meson
    show ?thesis unfolding f st normalize_field_eq [OF key val] s using os by simp
  qed
qed

lemma well_typed_fields_ok:
  "list_all well_typed_field fs \<Longrightarrow> \<exists>st'. normalize_fields fs st = Inr st'"
proof (induction fs arbitrary: st)
  case Nil
  show ?case by (rule exI [where x = st]) simp
next
  case (Cons f rest)
  from Cons.prems have "well_typed_field f" by simp
  then obtain st1 where s1: "normalize_field f st = Inr st1"
    using well_typed_field_ok by blast
  from Cons.prems have "list_all well_typed_field rest" by simp
  from Cons.IH [OF this, of st1] obtain st' where s2: "normalize_fields rest st1 = Inr st'"
    by blast
  from s1 s2 have "normalize_fields (f # rest) st = Inr st'" by simp
  then show ?case by (rule exI)
qed

lemma normalize_fields_append:
  "normalize_fields (xs @ ys) st =
     (case normalize_fields xs st of Inl e \<Rightarrow> Inl e | Inr st' \<Rightarrow> normalize_fields ys st')"
  by (induction xs arbitrary: st) (auto split: sum.splits)

lemma or_stripped_raises:
  "\<not> truthy x \<Longrightarrow> \<not> is_str val \<Longrightarrow> or_stripped x val f = Inl AttributeError"
  by (cases val) (simp_all add: or_stripped_def)

lemma normalize_field_raises:
  assumes key: "field_key field = Inr key" and val: "field_val field = Inr val"
    and tv: "truthy val" and ns: "\<not> is_str val"
    and cl: "spec_classify key = Some tgt" and unset: "\<not> truthy (slot tgt st)"
  shows "normalize_field (JObj field) st = Inl AttributeError"
proof -
  obtain n e p where st: "st = (n, e, p)" by (rule prod_cases3)
  show ?thesis
  proof (cases tgt)
    case Email
    with cl have "py_in ''email'' key" by (simp add: spec_classify_def split: if_splits)
    moreover from unset st Email have "or_stripped e val py_lower = Inl AttributeError"
      using ns by (simp add: or_stripped_raises)
    ultimately show ?thesis unfolding st normalize_field_eq [OF key val] using tv by simp
  next
    case Name
    with cl have "\<not> py_in ''email'' key" "py_in ''name'' key"
      by (simp_all add: spec_classify_def split: if_splits)
    moreover from unset st Name have "or_stripped n val (\<lambda>s. s) = Inl AttributeError"
      using ns by (simp add: or_stripped_raises)
    ultimately show ?thesis unfolding st normalize_field_eq [OF key val] using tv by simp
  next
    case Phone
    with cl have "\<not> py_in ''email'' key" "\<not> py_in ''name'' key"
      "py_in ''phone'' key \<or> py_in ''mobile'' key"
      by (simp_all add: spec_classify_def split: if_splits)
    moreover from unset st Phone have "or_stripped p val (\<lambda>s. s) = Inl AttributeError"
      using ns by (simp add: or_stripped_raises)
    ultimately show ?thesis unfolding st normalize_field_eq [OF key val] using tv by simp
  qed
qed

lemma normalize_fields_unset:
  assumes "normalize_fields fs (JNull, JNull, JNull) = Inr st" "spec_first tgt fs = None"
  shows "\<not> truthy (slot tgt st)"
  using normalize_fields_slot [OF assms(1), of tgt] assms(2) by (cases tgt) simp_all

lemma py_or_unset: "\<not> truthy a \<Longrightarrow> b = JNull \<Longrightarrow> c = JNull \<Longrightarrow> py_or (py_or a b) c = JNull"
  by (simp add: py_or_def)

text \<open>
  Claim C5, as the code has it. \<^verbatim>\<open>normalize_lead\<close> reads its argument and assigns
  local variables only, so it is embedded as a function of the raw record (and of
  \<^verbatim>\<open>str\<close> on an identifier that is not a string). It does not return on every raw
  record. On a raw record in the shape of its docstring (a dict whose field data is
  missing, falsy or a list of dicts with names and first values that are missing, falsy or
  strings) it returns a record that carries the raw record; the lead identifier is absent
  exactly when \<^verbatim>\<open>id\<close> is missing or null, the creation time is the raw one or
  absent, and each of e-mail, phone and name is absent when no entry of the field data
  gives a non-empty value for it and both of its direct keys are missing or null. The
  shape is enough for this, not needed for it. And it raises \<^verbatim>\<open>AttributeError\<close>
  whenever the field data is a list in which, after entries in that shape none of which
  gives a value for some target, there is an entry classified for that target whose first
  value is truthy and not a string: a number has no \<^verbatim>\<open>strip\<close>.
\<close>

theorem normalize_lead_total_on_well_typed:
  "(well_typed_raw (JObj raw) \<and> field_data_of raw = JList fs \<longrightarrow>
      (\<exists>r. normalize_lead repr (JObj raw) = Inr r
         \<and> l_raw r = JObj raw
         \<and> l_lead_id r = (if dict_get raw ''id'' = JNull then None
                           else Some (py_str repr (dict_get raw ''id'')))
         \<and> l_created_time r = dict_get raw ''created_time''
         \<and> (spec_first Email fs = None \<and> dict_get raw ''email'' = JNull
              \<and> dict_get raw ''email_address'' = JNull \<longrightarrow> l_email r = JNull)
         \<and> (spec_first Phone fs = None \<and> dict_get raw ''phone'' = JNull
              \<and> dict_get raw ''phone_number'' = JNull \<longrightarrow> l_phone r = JNull)
         \<and> (spec_first Name fs = None \<and> dict_get raw ''name'' = JNull
              \<and> dict_get raw ''full_name'' = JNull \<longrightarrow> l_name r = JNull)))
   \<and> (field_data_of bad = JList (pre @ JObj field # post)
        \<and> list_all well_typed_field pre \<and> spec_first tgt pre = None
        \<and> field_key field = Inr key \<and> spec_classify key = Some tgt
        \<and> field_val field = Inr val \<and> truthy val \<and> \<not> is_str val \<longrightarrow>
      normalize_lead repr (JObj bad) = Inl AttributeError)"
proof (intro conjI impI)
  assume a: "well_typed_raw (JObj raw) \<and> field_data_of raw = JList fs"
  then have all: "list_all well_typed_field fs" by auto
  from well_typed_fields_ok [OF all] obtain st where
    run: "normalize_fields fs (JNull, JNull, JNull) = Inr st" by blast
  obtain n e p where st: "st = (n, e, p)" by (rule prod_cases3)
  let ?r = "\<lparr> l_lead_id = (if dict_get raw ''id'' \<noteq> JNull
                             then Some (py_str repr (dict_get raw ''id'')) else None),
               l_created_time = dict_get raw ''created_time'',
               l_name = py_or (py_or n (dict_get raw ''name'')) (dict_get raw ''full_name''),
               l_email = py_or (py_or e (dict_get raw ''email'')) (dict_get raw ''email_address''),
               l_phone = py_or (py_or p (dict_get raw ''phone'')) (dict_get raw ''phone_number''),
               l_raw = JObj raw \<rparr>"
  from a run st have res: "normalize_lead repr (JObj raw) = Inr ?r"
    by (simp add: Let_def)
  have unset: "\<not> truthy (slot t (n, e, p))" if "spec_first t fs = None" for t
    using normalize_fields_unset [OF run that] st by simp
  have em: "l_email ?r = JNull" if "spec_first Email fs = None \<and> dict_get raw ''email'' = JNull
              \<and> dict_get raw ''email_address'' = JNull"
    using unset [of Email] that by (simp add: py_or_unset)
  have ph: "l_phone ?r = JNull" if "spec_first Phone fs = None \<and> dict_get raw ''phone'' = JNull
              \<and> dict_get raw ''phone_number'' = JNull"
    using unset [of Phone] that by (simp add: py_or_unset)
  have nm: "l_name ?r = JNull" if "spec_first Name fs = None \<and> dict_get raw ''name'' = JNull
              \<and> dict_get raw ''full_name'' = JNull"
    using unset [of Name] that by (simp add: py_or_unset)
  have id: "l_lead_id ?r = (if dict_get raw ''id'' = JNull then None
                           else Some (py_str repr (dict_get raw ''id'')))"
    by simp
  have "normalize_lead repr (JObj raw) = Inr ?r
         \<and> l_raw ?r = JObj raw
         \<and> l_lead_id ?r = (if dict_get raw ''id'' = JNull then None
                           else Some (py_str repr (dict_get raw ''id'')))
         \<and> l_created_time ?r = dict_get raw ''created_time''
         \<and> (spec_first Email fs = None \<and> dict_get raw ''email'' = JNull
              \<and> dict_get raw ''email_address'' = JNull \<longrightarrow> l_email ?r = JNull)
         \<and> (spec_first Phone fs = None \<and> dict_get raw ''phone'' = JNull
              \<and> dict_get raw ''phone_number'' = JNull \<longrightarrow> l_phone ?r = JNull)
         \<and> (spec_first Name fs = None \<and> dict_get raw ''name'' = JNull
              \<and> dict_get raw ''full_name'' = JNull \<longrightarrow> l_name ?r = JNull)"
    using res id em ph nm by (intro conjI impI) simp_all
  then show "\<exists>r. normalize_lead repr (JObj raw) = Inr r
         \<and> l_raw r = JObj raw
         \<and> l_lead_id r = (if dict_get raw ''id'' = JNull then None
                           else Some (py_str repr (dict_get raw ''id'')))
         \<and> l_created_time r = dict_get raw ''created_time''
         \<and> (spec_first Email fs = None \<and> dict_get raw ''email'' = JNull
              \<and> dict_get raw ''email_address'' = JNull \<longrightarrow> l_email r = JNull)
         \<and> (spec_first Phone fs = None \<and> dict_get raw ''phone'' = JNull
              \<and> dict_get raw ''phone_number'' = JNull \<longrightarrow> l_phone r = JNull)
         \<and> (spec_first Name fs = None \<and> dict_get raw ''name'' = JNull
              \<and> dict_get raw ''full_name'' = JNull \<longrightarrow> l_name r = JNull)"
    by (rule exI)
next
  assume b: "field_data_of bad = JList (pre @ JObj field # post)
        \<and> list_all well_typed_field pre \<and> spec_first tgt pre = None
        \<and> field_key field = Inr key \<and> spec_classify key = Some tgt
        \<and> field_val field = Inr val \<and> truthy val \<and> \<not> is_str val"
  then have all: "list_all well_typed_field pre" by simp
  from well_typed_fields_ok [OF all] obtain st where
    run: "normalize_fields pre (JNull, JNull, JNull) = Inr st" by blast
  from b have "spec_first tgt pre = None" by simp
  from normalize_fields_unset [OF run this] have unset: "\<not> truthy (slot tgt st)" .
  from b have "normalize_field (JObj field) st = Inl AttributeError"
    using normalize_field_raises [OF _ _ _ _ _ unset] by blast
  with run have "normalize_fields (pre @ JObj field # post) (JNull, JNull, JNull)
      = Inl AttributeError"
    by (simp add: normalize_fields_append)
  with b show "normalize_lead repr (JObj bad) = Inl AttributeError"
    by (simp add: Let_def)
qed

theorem normalize_lead_total_on_well_typed_witness:
  "well_typed_raw raw_id_only
   \<and> normalize_lead (\<lambda>v. []) raw_id_only =
       Inr \<lparr> l_lead_id = Some ''1'', l_created_time = JNull, l_name = JNull, l_email = JNull,
             l_phone = JNull, l_raw = raw_id_only \<rparr>
   \<and> normalize_lead (\<lambda>v. []) raw_number_later = Inl AttributeError"
proof -
  let ?raw = "[(''id'', JStr ''1''), (''field_data'', JList [entry_city, entry_email_empty])]"
  let ?fs = "[entry_city, entry_email_empty]"
  let ?field = "[(''name'', JStr ''Work Phone''), (''values'', JList [JInt 5])]"
  let ?bad = "[(''id'', JStr ''1''),
              (''field_data'', JList [entry_city, JObj ?field, entry_email2])]"
  have wt: "well_typed_raw (JObj ?raw)" by code_simp
  have fd: "field_data_of ?raw = JList ?fs" by code_simp
  have sf: "spec_first Email ?fs = None" "spec_first Phone ?fs = None"
    "spec_first Name ?fs = None" by code_simp+
  have id: "dict_get ?raw ''id'' = JStr ''1''" by code_simp
  have dg: "dict_get ?raw ''created_time'' = JNull"
    "dict_get ?raw ''email'' = JNull" "dict_get ?raw ''email_address'' = JNull"
    "dict_get ?raw ''phone'' = JNull" "dict_get ?raw ''phone_number'' = JNull"
    "dict_get ?raw ''name'' = JNull" "dict_get ?raw ''full_name'' = JNull" by code_simp+
  have fdb: "field_data_of ?bad = JList ([entry_city] @ JObj ?field # [entry_email2])"
    by code_simp
  have pre: "list_all well_typed_field [entry_city]" "spec_first Phone [entry_city] = None"
    by code_simp+
  have kv: "field_key ?field = Inr ''work phone''" "spec_classify ''work phone'' = Some Phone"
    "field_val ?field = Inr (JInt 5)" by code_simp+
  have five: "truthy (JInt 5)" "\<not> is_str (JInt 5)" by simp_all
  note t = normalize_lead_total_on_well_typed [where repr = "\<lambda>v. []"
      and raw = ?raw and fs = ?fs and bad = ?bad and pre = "[entry_city]" and field = ?field
      and post = "[entry_email2]" and tgt = Phone and key = "''work phone''"
      and val = "JInt 5"]
  from t wt fd obtain r where r: "normalize_lead (\<lambda>v. []) (JObj ?raw) = Inr r"
    "l_raw r = JObj ?raw"
    "l_lead_id r = (if dict_get ?raw ''id'' = JNull then None
                    else Some (py_str (\<lambda>v. []) (dict_get ?raw ''id'')))"
    "l_created_time r = dict_get ?raw ''created_time''"
    "spec_first Email ?fs = None \<and> dict_get ?raw ''email'' = JNull
       \<and> dict_get ?raw ''email_address'' = JNull \<longrightarrow> l_email r = JNull"
    "spec_first Phone ?fs = None \<and> dict_get ?raw ''phone'' = JNull
       \<and> dict_get ?raw ''phone_number'' = JNull \<longrightarrow> l_phone r = JNull"
    "spec_first Name ?fs = None \<and> dict_get ?raw ''name'' = JNull
       \<and> dict_get ?raw ''full_name'' = JNull \<longrightarrow> l_name r = JNull"
    by blast
  from r(5-7) sf dg have absent: "l_email r = JNull" "l_phone r = JNull" "l_name r = JNull"
    by blast+
  from r(3) have lid: "l_lead_id r = Some ''1''" unfolding id by (simp add: py_str_def)
  from r(4) have ct: "l_created_time r = JNull" unfolding dg .
  from r(2) absent lid ct
  have "r = \<lparr> l_lead_id = Some ''1'', l_created_time = JNull, l_name = JNull, l_email = JNull,
             l_phone = JNull, l_raw = JObj ?raw \<rparr>"
    by (intro lead.equality) simp_all
  with r(1) have good: "normalize_lead (\<lambda>v. []) (JObj ?raw) =
       Inr \<lparr> l_lead_id = Some ''1'', l_created_time = JNull, l_name = JNull, l_email = JNull,
             l_phone = JNull, l_raw = JObj ?raw \<rparr>" by (rule back_subst)
  from t fdb pre kv five have raises: "normalize_lead (\<lambda>v. []) (JObj ?bad) = Inl AttributeError"
    by blast
  from wt good raises show ?thesis by (intro conjI)
qed

theorem normalize_lead_raises_counterexample:
  "normalize_lead (\<lambda>v. []) raw_number_value = Inl AttributeError"
  by code_simp

section \<open>Properties of the page fetcher\<close>

lemma spec_page_of:
  "spec_page resp \<Longrightarrow>
     status_code resp < 500 \<and> page_of resp = Inr (spec_page_records resp, spec_page_cursor resp)"
  apply (cases resp)
  subgoal for st bd
    apply (cases bd)
     apply (simp add: spec_page_def)
    subgoal for data
      apply (cases data)
            apply (simp_all add: spec_page_def)
      subgoal for d
        apply (cases "dict_get d ''data''"; cases "map_of d ''paging''")
        apply (auto simp add: page_of_def spec_page_records_def spec_page_cursor_def dict_get_def
            split: json.splits option.splits)
        done
      done
    done
  done

lemma fetch_pages_stop:
  "\<not> truthy url \<Longrightarrow> fetch_pages script url params leads sent = (Returned leads, sent)"
  by (cases script) simp_all

lemma fetch_pages_page:
  assumes "spec_page page" "truthy url"
  shows "fetch_pages (Reply page # script) url params leads sent =
     fetch_pages script (spec_page_cursor page) None (leads @ spec_page_records page)
       (sent @ [(url, params)])"
proof -
  from spec_page_of [OF assms(1)] have st: "\<not> 500 \<le> status_code page"
    and pg: "page_of page = Inr (spec_page_records page, spec_page_cursor page)"
    by simp_all
  show ?thesis
    by (simp only: fetch_pages.simps assms(2) st pg not_True_eq_False if_False
        http_event.case sum.case prod.case)
qed

lemma fetch_pages_chain:
  "spec_chain pages \<Longrightarrow> truthy url \<Longrightarrow>
     fetch_pages (map Reply pages @ later) url params leads sent =
       (Returned (leads @ concat (map spec_page_records pages)),
        sent @ (url, params) # map (\<lambda>p. (spec_page_cursor p, None)) (butlast pages))"
proof (induction pages arbitrary: url params leads sent rule: spec_chain.induct)
  case 1
  then show ?case by simp
next
  case (2 last_page)
  then have pg: "spec_page last_page" and stop: "\<not> truthy (spec_page_cursor last_page)"
    by simp_all
  show ?case
    using fetch_pages_page [OF pg "2.prems"(2), of later params leads sent]
      fetch_pages_stop [OF stop, of later None "leads @ spec_page_records last_page"
        "sent @ [(url, params)]"]
    by simp
next
  case (3 page p rest)
  then have pg: "spec_page page" and go: "truthy (spec_page_cursor page)"
    and chain: "spec_chain (p # rest)"
    by simp_all
  from "3.IH" [OF chain go, of None "leads @ spec_page_records page" "sent @ [(url, params)]"]
    fetch_pages_page [OF pg "3.prems"(2), of "map Reply (p # rest) @ later" params leads sent]
  show ?case by simp
qed

lemma build_url_truthy: "truthy (JStr (build_url cfg form_id))"
  by (simp add: build_url_def)

text \<open>
  Claim C7. With a token supplied, when the network answers with a chain of pages (each
  a page of the documented shape, every page but the last with a cursor) \<^verbatim>\<open>fetch_leads\<close>
  returns the record lists of the pages concatenated in order, a missing or empty list
  counting for nothing. It sends the first request to the built URL with the query
  parameters, then one request for each cursor, to the cursor itself with no parameters,
  and none after the page without a cursor, whatever the network would answer later.
\<close>

theorem fetch_leads_chain:
  "spec_chain pages \<and> access_token = Some token \<and> token \<noteq> [] \<longrightarrow>
     fetch_leads cfg (map Reply pages @ later) access_token form_id since page_size =
       (Returned (concat (map spec_page_records pages)),
        (JStr (build_url cfg form_id), Some (first_params token since page_size))
          # map (\<lambda>p. (spec_page_cursor p, None)) (butlast pages))"
proof
  assume a: "spec_chain pages \<and> access_token = Some token \<and> token \<noteq> []"
  then have chain: "spec_chain pages" by simp
  from fetch_pages_chain [OF chain build_url_truthy, of later cfg form_id
      "Some (first_params token since page_size)" "[]" "[]"] a
  show "fetch_leads cfg (map Reply pages @ later) access_token form_id since page_size =
       (Returned (concat (map spec_page_records pages)),
        (JStr (build_url cfg form_id), Some (first_params token since page_size))
          # map (\<lambda>p. (spec_page_cursor p, None)) (butlast pages))"
    by (simp add: fetch_leads_def)
qed


theorem fetch_leads_chain_witness:
  "spec_chain [page_first, page_second, page_third]
   \<and> fetch_leads sample_config [Reply page_first, Reply page_second, Reply page_third]
        (Some ''token'') ''42'' None 100 =
       (Returned [raw_mail, raw_nocontact, raw_noid],
        [(JStr ''https://graph.facebook.com/v16.0/42/leads'',
          Some [(''access_token'', JStr ''token''),
                (''fields'', JStr ''field_data,created_time,id''),
                (''limit'', JInt 100)]),
         (JStr ''https://next/2'', None),
         (JStr ''https://next/3'', None)])"
proof -
  have chain: "spec_chain [page_first, page_second, page_third]"
    by code_simp
  have run: "fetch_leads sample_config [Reply page_first, Reply page_second, Reply page_third]
        (Some ''token'') ''42'' None 100 =
       (Returned [raw_mail, raw_nocontact, raw_noid],
        [(JStr ''https://graph.facebook.com/v16.0/42/leads'',
          Some [(''access_token'', JStr ''token''),
                (''fields'', JStr ''field_data,created_time,id''),
                (''limit'', JInt 100)]),
         (JStr ''https://next/2'', None),
         (JStr ''https://next/3'', None)])"
    by code_simp
  from fetch_leads_chain [of "[page_first, page_second, page_third]" "Some ''token''" "''token''"
      sample_config "[]" "''42''" None 100] chain run
  show ?thesis by simp
qed

section \<open>Properties of the program\<close>

text \<open>
  Claim C10. \<^verbatim>\<open>load_sample\<close> gives an empty list when the sample file does not exist;
  with \<^verbatim>\<open>--mock-sample\<close> such a run ends with exit code 0, no output file, no request,
  the store as it was opened, and the counts 0 and 0.
\<close>

theorem mock_sample_missing_file:
  "load_sample None = Inr (JList [])
   \<and> (args_mock_sample a \<longrightarrow>
        main repr cfg a None existing script =
          \<lparr> run_exit = ExitCode 0, run_written = None, run_db = Some (LeadDB existing),
            run_requests = [], run_counts = Some (0, 0) \<rparr>)"
  by (simp add: main_def raw_leads_of_def load_sample_def write_output_def)

theorem mock_sample_missing_file_witness:
  "args_mock_sample mock_args
   \<and> main (\<lambda>v. []) sample_config mock_args None (Some [''7'']) [] =
       \<lparr> run_exit = ExitCode 0, run_written = None, run_db = Some [''7''],
         run_requests = [], run_counts = Some (0, 0) \<rparr>"
  using mock_sample_missing_file [of mock_args "\<lambda>v. []" sample_config "Some [''7'']" "[]"]
  by (simp add: LeadDB_def)

end
